theory Spec2Isabelle
  imports Main "HOL-Library.Product_Lexorder" "HOL-Library.Multiset" "HOL-Library.Sublist"
begin

section \<open>Shallow embedding of \<^verbatim>\<open>scripts/extract_html.py\<close>\<close>

subsection \<open>Strings\<close>

text \<open>
  A Python \<^verbatim>\<open>str\<close> is modelled as a \<^typ>\<open>string\<close> whose characters are the code points
  below 256.  \<open>is_space\<close> is the whitespace test shared by \<^verbatim>\<open>str.strip\<close>, \<^verbatim>\<open>str.split\<close>
  and the regular expression class \<^verbatim>\<open>\s\<close> on that range.
\<close>

definition is_space :: "char \<Rightarrow> bool" where
  "is_space c =
     (let n = (of_char c :: nat)
      in (9 \<le> n \<and> n \<le> 13) \<or> (28 \<le> n \<and> n \<le> 32) \<or> n = 133 \<or> n = 160)"

definition strip :: "string \<Rightarrow> string" where
  "strip s = rev (dropWhile is_space (rev (dropWhile is_space s)))"

definition lower_char :: "char \<Rightarrow> char" where
  "lower_char c =
     (let n = (of_char c :: nat)
      in if (65 \<le> n \<and> n \<le> 90) \<or> (192 \<le> n \<and> n \<le> 222 \<and> n \<noteq> 215)
         then char_of (n + 32) else c)"

definition lower :: "string \<Rightarrow> string" where
  "lower s = map lower_char s"

text \<open>\<open>upper_char\<close> is \<^verbatim>\<open>str.upper\<close> on the letters a to z, the only ones it is applied to.\<close>

definition upper_char :: "char \<Rightarrow> char" where
  "upper_char c =
     (let n = (of_char c :: nat)
      in if 97 \<le> n \<and> n \<le> 122 then char_of (n - 32) else c)"

subsection \<open>Data model\<close>

text \<open>
  A naive \<^verbatim>\<open>datetime\<close> is the tuple (year, month, day, hour, minute, second, microsecond);
  Python compares two of them component by component in that order, which is the
  lexicographic order of the product type.
\<close>

type_synonym datetime = "nat \<times> nat \<times> nat \<times> nat \<times> nat \<times> nat \<times> nat"

definition datetime_min :: datetime where
  "datetime_min = (1, 1, 1, 0, 0, 0, 0)"

record ParsedMessage =
  sender_name :: string
  msg_text :: string
  timestamp :: "datetime option"
  has_image :: bool
  image_count :: nat
  has_link :: bool
  link_count :: nat

text \<open>One output row: the nine CSV columns, in the order of \<^verbatim>\<open>fieldnames\<close>.\<close>

record 'c row =
  row_conversation_id :: 'c
  row_msg_id :: nat
  row_role :: string
  row_text :: string
  row_has_image :: nat
  row_image_count :: nat
  row_has_link :: nat
  row_link_count :: nat
  row_is_media_only :: nat

subsection \<open>Conversation identifiers\<close>

text \<open>
  \<^verbatim>\<open>uuid.uuid4()\<close> is a source of identifiers outside the program: \<open>uuid4 n\<close> is the value
  of its \<open>n\<close>-th call, and the number of calls made so far travels with the map.
\<close>

definition get_or_create_conversation_id ::
  "(nat \<Rightarrow> 'c) \<Rightarrow> ('k \<rightharpoonup> 'c) \<times> nat \<Rightarrow> 'k \<Rightarrow> 'c \<times> ('k \<rightharpoonup> 'c) \<times> nat" where
  "get_or_create_conversation_id uuid4 st thread_key =
     (case fst st thread_key of
        Some cid \<Rightarrow> (cid, st)
      | None \<Rightarrow> (uuid4 (snd st), (fst st)(thread_key \<mapsto> uuid4 (snd st)), Suc (snd st)))"

subsection \<open>Role inference\<close>

definition infer_role :: "string \<Rightarrow> string \<Rightarrow> string" where
  "infer_role sender customer =
     (if sender \<noteq> [] \<and> customer \<noteq> [] \<and> lower (strip sender) = lower (strip customer)
      then ''customer'' else ''assistant'')"

text \<open>
  The labels that reach \<^verbatim>\<open>infer_role\<close> are read with \<^verbatim>\<open>get_text(strip=True)\<close> (the title
  in \<^verbatim>\<open>header h1\<close>, the sender in \<^verbatim>\<open>h2\<close>): of the text nodes of the element each is trimmed,
  the empty ones are dropped, and the rest are joined with nothing between them.
\<close>

definition get_text_strip :: "string list \<Rightarrow> string" where
  "get_text_strip nodes = concat (filter (\<lambda>s. s \<noteq> []) (map strip nodes))"

subsection \<open>Thread aggregation\<close>

text \<open>
  \<open>parse fp\<close> stands for \<^verbatim>\<open>parse_messenger_html(fp)\<close>: \<open>None\<close> when it raises (the
  document is skipped), otherwise the customer name and the messages of the document.
\<close>

type_synonym 'p parser = "'p \<Rightarrow> (string \<times> ParsedMessage list) option"

text \<open>The loop over \<^verbatim>\<open>sorted(files)\<close>, with \<^verbatim>\<open>customer_name_final\<close> and \<^verbatim>\<open>all_msgs\<close> as accumulators.\<close>

fun collect_thread ::
  "'p parser \<Rightarrow> 'p list \<Rightarrow> string \<times> ParsedMessage list \<Rightarrow> string \<times> ParsedMessage list" where
  "collect_thread parse [] acc = acc"
| "collect_thread parse (fp # fps) acc =
     (case parse fp of
        None \<Rightarrow> collect_thread parse fps acc
      | Some (customer_name, msgs) \<Rightarrow>
          collect_thread parse fps
            (if customer_name \<noteq> [] \<and> fst acc = [] then customer_name else fst acc,
             snd acc @ msgs))"

definition sort_key_of :: "ParsedMessage \<Rightarrow> bool \<times> datetime" where
  "sort_key_of m =
     (timestamp m = None, case timestamp m of None \<Rightarrow> datetime_min | Some t \<Rightarrow> t)"

text \<open>\<^verbatim>\<open>list.sort\<close> is a stable sort; \<^const>\<open>sort_key\<close> is the stable sort of the library.\<close>

definition order_msgs :: "ParsedMessage list \<Rightarrow> ParsedMessage list" where
  "order_msgs all_msgs =
     (if list_ex (\<lambda>m. timestamp m \<noteq> None) all_msgs
      then sort_key sort_key_of all_msgs else all_msgs)"

definition thread_msgs :: "'p::linorder parser \<Rightarrow> 'p list \<Rightarrow> ParsedMessage list" where
  "thread_msgs parse files = order_msgs (snd (collect_thread parse (sort files) ([], [])))"

definition make_row :: "'c \<Rightarrow> string \<Rightarrow> nat \<times> ParsedMessage \<Rightarrow> 'c row" where
  "make_row conversation_id customer_name_final im =
     (let m = snd im;
          text_clean = strip (msg_text m)
      in \<lparr> row_conversation_id = conversation_id,
           row_msg_id = fst im,
           row_role = infer_role (sender_name m) customer_name_final,
           row_text = text_clean,
           row_has_image = of_bool (has_image m),
           row_image_count = image_count m,
           row_has_link = of_bool (has_link m),
           row_link_count = link_count m,
           row_is_media_only = of_bool (text_clean = [] \<and> (has_image m \<or> has_link m)) \<rparr>)"

definition thread_rows :: "'p::linorder parser \<Rightarrow> 'c \<Rightarrow> 'p list \<Rightarrow> 'c row list" where
  "thread_rows parse conversation_id files =
     map (make_row conversation_id (fst (collect_thread parse (sort files) ([], []))))
       (enumerate 1 (thread_msgs parse files))"

text \<open>
  The extractor object: the in-memory ID map (with the count of identifiers drawn so
  far) and the accumulated rows.
\<close>

record ('k, 'c) extractor =
  id_map :: "('k \<rightharpoonup> 'c) \<times> nat"
  rows :: "'c row list"

text \<open>
  \<^verbatim>\<open>threads.setdefault(key, []).append(hp)\<close> on a dictionary kept as an association list
  in insertion order.
\<close>

fun setdefault_append :: "('k \<times> 'p list) list \<Rightarrow> 'k \<Rightarrow> 'p \<Rightarrow> ('k \<times> 'p list) list" where
  "setdefault_append [] k hp = [(k, [hp])]"
| "setdefault_append ((k', fs) # th) k hp =
     (if k' = k then (k', fs @ [hp]) # th else (k', fs) # setdefault_append th k hp)"

definition group_threads :: "('p \<Rightarrow> 'k) \<Rightarrow> 'p list \<Rightarrow> ('k \<times> 'p list) list" where
  "group_threads thread_key_for_file html_files =
     foldl (\<lambda>th hp. setdefault_append th (thread_key_for_file hp) hp) [] html_files"

text \<open>One iteration of the loop over the sorted threads.\<close>

definition process_thread ::
  "(nat \<Rightarrow> 'c) \<Rightarrow> 'p::linorder parser \<Rightarrow> ('k, 'c) extractor \<Rightarrow> 'k \<times> 'p list \<Rightarrow> ('k, 'c) extractor" where
  "process_thread uuid4 parse ex kf =
     (let (conversation_id, idm) = get_or_create_conversation_id uuid4 (id_map ex) (fst kf)
      in \<lparr> id_map = idm, rows = rows ex @ thread_rows parse conversation_id (snd kf) \<rparr>)"

text \<open>
  \<^verbatim>\<open>process_directory\<close>, given the list \<open>html_files\<close> that \<^verbatim>\<open>find_message_htmls\<close> returned.
  The result is the extractor after the run and the map that \<^verbatim>\<open>save_id_map\<close> wrote as the
  last step.  The progress lines printed on the way are left out.
\<close>

definition sorted_threads :: "('p \<Rightarrow> 'k::linorder) \<Rightarrow> 'p list \<Rightarrow> ('k \<times> 'p list) list" where
  "sorted_threads thread_key_for_file html_files =
     sort_key fst (group_threads thread_key_for_file html_files)"

definition process_directory ::
  "(nat \<Rightarrow> 'c) \<Rightarrow> ('p::linorder \<Rightarrow> 'k::linorder) \<Rightarrow> 'p parser \<Rightarrow> ('k, 'c) extractor \<Rightarrow> 'p list
     \<Rightarrow> ('k, 'c) extractor \<times> ('k \<rightharpoonup> 'c)" where
  "process_directory uuid4 thread_key_for_file parse ex html_files =
     (let ex' = foldl (process_thread uuid4 parse) ex
                  (sorted_threads thread_key_for_file html_files)
      in (ex', fst (id_map ex')))"

text \<open>
  The messages of one document (none when it fails to parse) and the concatenation of
  the documents of a thread in the order of \<^verbatim>\<open>sorted(files)\<close>.
\<close>

definition doc_msgs :: "'p parser \<Rightarrow> 'p \<Rightarrow> ParsedMessage list" where
  "doc_msgs parse fp = (case parse fp of None \<Rightarrow> [] | Some (cn, ms) \<Rightarrow> ms)"

definition thread_concat :: "'p::linorder parser \<Rightarrow> 'p list \<Rightarrow> ParsedMessage list" where
  "thread_concat parse files = concat (map (doc_msgs parse) (sort files))"

subsection \<open>Timestamp normalisation\<close>

text \<open>\<^verbatim>\<open>raw.split()\<close>: the maximal runs of characters that are not whitespace.\<close>

function split_ws :: "string \<Rightarrow> string list" where
  "split_ws s =
     (case dropWhile is_space s of
        [] \<Rightarrow> []
      | c # cs \<Rightarrow>
          takeWhile (\<lambda>x. \<not> is_space x) (c # cs)
            # split_ws (dropWhile (\<lambda>x. \<not> is_space x) cs))"
  by pat_completeness auto
termination
proof (relation "measure length")
  show "wf (measure length)"
    by simp
next
  fix s :: string and c cs
  assume "dropWhile is_space s = c # cs"
  then have "length (c # cs) \<le> length s"
    by (metis length_dropWhile_le)
  moreover have "length (dropWhile (\<lambda>x. \<not> is_space x) cs) \<le> length cs"
    by (rule length_dropWhile_le)
  ultimately show "(dropWhile (\<lambda>x. \<not> is_space x) cs, s) \<in> measure length"
    by simp
qed

fun join_sp :: "string list \<Rightarrow> string" where
  "join_sp [] = []"
| "join_sp [w] = w"
| "join_sp (w # v # ws) = w @ CHR '' '' # join_sp (v # ws)"

text \<open>
  The pattern \<^verbatim>\<open>\s+(am|pm)\s*$\<close> with \<^verbatim>\<open>IGNORECASE\<close>, tried at the start of \<open>s\<close>: the
  result is group 1.  The whitespace run is taken whole (a shorter one would leave a
  whitespace character where the letter has to be), and after the marker only whitespace
  may follow up to the end.
\<close>

definition match_ampm :: "string \<Rightarrow> string option" where
  "match_ampm s =
     (if takeWhile is_space s = [] then None
      else
        case dropWhile is_space s of
          a # m # t \<Rightarrow>
            if (lower_char a = CHR ''a'' \<or> lower_char a = CHR ''p'') \<and> lower_char m = CHR ''m''
               \<and> list_all is_space t
            then Some [a, m] else None
        | _ \<Rightarrow> None)"

text \<open>
  \<^verbatim>\<open>re.sub\<close> with that pattern: the leftmost match, which reaches the end of the string,
  is replaced by a space and group 1 in upper case.
\<close>

fun sub_ampm :: "string \<Rightarrow> string" where
  "sub_ampm [] = []"
| "sub_ampm (c # cs) =
     (case match_ampm (c # cs) of
        Some g \<Rightarrow> CHR '' '' # map upper_char g
      | None \<Rightarrow> c # sub_ampm cs)"

text \<open>
  \<^verbatim>\<open>datetime.strptime\<close> with the format \<^verbatim>\<open>%b %d, %Y %I:%M:%S %p\<close>.  The library turns
  the format into the regular expression
  \<^verbatim>\<open>(jan|...|dec)\s+(3[0-1]|[1-2]\d|0[1-9]|[1-9]| [1-9]),\s+(\d\d\d\d)\s+(1[0-2]|0[1-9]|[1-9]):([0-5]\d|\d):(6[0-1]|[0-5]\d|\d)\s+(am|pm)\<close>,
  matched ignoring case at the start of the string.  Each piece is modelled by the list
  of its matches in the order a backtracking matcher tries them: the value matched and
  the rest of the string.
\<close>

definition digit_val :: "char \<Rightarrow> nat option" where
  "digit_val c =
     (let n = (of_char c :: nat) in if 48 \<le> n \<and> n \<le> 57 then Some (n - 48) else None)"

definition two_digits ::
  "(nat \<Rightarrow> bool) \<Rightarrow> (nat \<Rightarrow> bool) \<Rightarrow> string \<Rightarrow> (nat \<times> string) list" where
  "two_digits P Q s =
     (case s of
        a # b # r \<Rightarrow>
          (case (digit_val a, digit_val b) of
             (Some x, Some y) \<Rightarrow> if P x \<and> Q y then [(10 * x + y, r)] else []
           | _ \<Rightarrow> [])
      | _ \<Rightarrow> [])"

definition one_digit :: "(nat \<Rightarrow> bool) \<Rightarrow> string \<Rightarrow> (nat \<times> string) list" where
  "one_digit P s =
     (case s of
        a # r \<Rightarrow> (case digit_val a of Some x \<Rightarrow> if P x then [(x, r)] else [] | None \<Rightarrow> [])
      | [] \<Rightarrow> [])"

definition a_month :: "string list" where
  "a_month =
     [''jan'', ''feb'', ''mar'', ''apr'', ''may'', ''jun'',
      ''jul'', ''aug'', ''sep'', ''oct'', ''nov'', ''dec'']"

fun index_of :: "'a list \<Rightarrow> 'a \<Rightarrow> nat option" where
  "index_of [] x = None"
| "index_of (y # ys) x = (if x = y then Some 0 else map_option Suc (index_of ys x))"

definition rx_month :: "string \<Rightarrow> (nat \<times> string) list" where
  "rx_month s =
     (case s of
        a # b # c # r \<Rightarrow>
          (case index_of a_month (lower [a, b, c]) of
             Some i \<Rightarrow> [(Suc i, r)]
           | None \<Rightarrow> [])
      | _ \<Rightarrow> [])"

text \<open>\<^verbatim>\<open>\s+\<close> is greedy: the whole run first, then one character less, down to one.\<close>

definition rx_ws :: "string \<Rightarrow> string list" where
  "rx_ws s = map (\<lambda>i. drop i s) (rev [1..<Suc (length (takeWhile is_space s))])"

definition rx_lit :: "char \<Rightarrow> string \<Rightarrow> string list" where
  "rx_lit c s = (case s of [] \<Rightarrow> [] | x # r \<Rightarrow> if x = c then [r] else [])"

definition rx_day :: "string \<Rightarrow> (nat \<times> string) list" where
  "rx_day s =
     two_digits (\<lambda>x. x = 3) (\<lambda>y. y \<le> 1) s
     @ two_digits (\<lambda>x. 1 \<le> x \<and> x \<le> 2) (\<lambda>y. True) s
     @ two_digits (\<lambda>x. x = 0) (\<lambda>y. 1 \<le> y) s
     @ one_digit (\<lambda>x. 1 \<le> x) s
     @ concat (map (one_digit (\<lambda>x. 1 \<le> x)) (rx_lit CHR '' '' s))"

definition rx_year :: "string \<Rightarrow> (nat \<times> string) list" where
  "rx_year s =
     [(100 * hi + lo, r). (hi, r1) \<leftarrow> two_digits (\<lambda>x. True) (\<lambda>y. True) s,
                           (lo, r) \<leftarrow> two_digits (\<lambda>x. True) (\<lambda>y. True) r1]"

definition rx_hour :: "string \<Rightarrow> (nat \<times> string) list" where
  "rx_hour s =
     two_digits (\<lambda>x. x = 1) (\<lambda>y. y \<le> 2) s
     @ two_digits (\<lambda>x. x = 0) (\<lambda>y. 1 \<le> y) s
     @ one_digit (\<lambda>x. 1 \<le> x) s"

definition rx_minute :: "string \<Rightarrow> (nat \<times> string) list" where
  "rx_minute s =
     two_digits (\<lambda>x. x \<le> 5) (\<lambda>y. True) s @ one_digit (\<lambda>x. True) s"

definition rx_second :: "string \<Rightarrow> (nat \<times> string) list" where
  "rx_second s =
     two_digits (\<lambda>x. x = 6) (\<lambda>y. y \<le> 1) s
     @ two_digits (\<lambda>x. x \<le> 5) (\<lambda>y. True) s
     @ one_digit (\<lambda>x. True) s"

text \<open>\<^verbatim>\<open>(am|pm)\<close>: the value is whether the marker is \<^verbatim>\<open>pm\<close>.\<close>

definition rx_ampm :: "string \<Rightarrow> (bool \<times> string) list" where
  "rx_ampm s =
     (case s of
        a # m # r \<Rightarrow>
          if lower_char m = CHR ''m'' \<and> lower_char a = CHR ''a'' then [(False, r)]
          else if lower_char m = CHR ''m'' \<and> lower_char a = CHR ''p'' then [(True, r)]
          else []
      | _ \<Rightarrow> [])"

text \<open>The fields (month, day, year, hour, minute, second, pm) of each match, and the rest.\<close>

type_synonym ts_fields = "nat \<times> nat \<times> nat \<times> nat \<times> nat \<times> nat \<times> bool"

definition format_regex :: "string \<Rightarrow> (ts_fields \<times> string) list" where
  "format_regex s =
     [((mo, d, y, h, mi, se, p), r).
        (mo, r1) \<leftarrow> rx_month s,
        r2 \<leftarrow> rx_ws r1,
        (d, r3) \<leftarrow> rx_day r2,
        r4 \<leftarrow> rx_lit CHR '','' r3,
        r5 \<leftarrow> rx_ws r4,
        (y, r6) \<leftarrow> rx_year r5,
        r7 \<leftarrow> rx_ws r6,
        (h, r8) \<leftarrow> rx_hour r7,
        r9 \<leftarrow> rx_lit CHR '':'' r8,
        (mi, r10) \<leftarrow> rx_minute r9,
        r11 \<leftarrow> rx_lit CHR '':'' r10,
        (se, r12) \<leftarrow> rx_second r11,
        r13 \<leftarrow> rx_ws r12,
        (p, r) \<leftarrow> rx_ampm r13]"

definition is_leap :: "nat \<Rightarrow> bool" where
  "is_leap y = (y mod 4 = 0 \<and> (y mod 100 \<noteq> 0 \<or> y mod 400 = 0))"

definition days_in_month :: "nat \<Rightarrow> nat \<Rightarrow> nat" where
  "days_in_month y m =
     (if m = 2 then (if is_leap y then 29 else 28)
      else if m = 4 \<or> m = 6 \<or> m = 9 \<or> m = 11 then 30 else 31)"

datatype py_error = ValueError

text \<open>
  The first match decides; data left over after it, a date that does not exist and a
  second above 59 raise \<^verbatim>\<open>ValueError\<close>.  The hour of the 12-hour clock is converted as the
  library does: 12 am is hour 0, and 12 is added to every pm hour but 12.
\<close>

definition strptime :: "string \<Rightarrow> py_error + datetime" where
  "strptime s =
     (case format_regex s of
        [] \<Rightarrow> Inl ValueError
      | ((mo, d, y, h, mi, se, p), r) # _ \<Rightarrow>
          if r \<noteq> [] then Inl ValueError
          else
            let hour = (if p then (if h \<noteq> 12 then h + 12 else h) else (if h = 12 then 0 else h))
            in if 1 \<le> y \<and> 1 \<le> d \<and> d \<le> days_in_month y mo \<and> se \<le> 59
               then Inr (y, mo, d, hour, mi, se, 0)
               else Inl ValueError)"

definition normalize_ts :: "string \<Rightarrow> string" where
  "normalize_ts raw = sub_ampm (join_sp (split_ws (strip raw)))"

text \<open>
  \<^verbatim>\<open>_safe_parse_timestamp\<close>.  \<open>Inl\<close> would be an exception that leaves the function, \<open>Inr None\<close>
  is the absent value.
\<close>

definition safe_parse_timestamp :: "string \<Rightarrow> py_error + datetime option" where
  "safe_parse_timestamp raw =
     (if strip raw = [] then Inr None
      else
        case strptime (normalize_ts raw) of
          Inr t \<Rightarrow> Inr (Some t)
        | Inl e \<Rightarrow> Inr None)"

subsection \<open>Timestamps in the fixed format\<close>

text \<open>
  What the specification calls a valid timestamp string, written from its words: month
  abbreviation, day, comma, four-digit year, hour of the 12-hour clock, minute, second and
  meridiem marker.  The marker may be spelled in any case, day and hour may carry a leading
  zero, and wherever the format has a blank there is any non-empty run of whitespace;
  whitespace may also surround the whole string.  \<open>tt_spaces\<close> holds the six runs: before
  the month, after the month, after the comma, after the year, before the marker and after
  the marker.
\<close>

definition dch :: "nat \<Rightarrow> char" where
  "dch n = char_of (48 + n)"

definition digits2 :: "nat \<Rightarrow> string" where
  "digits2 n = [dch (n div 10), dch (n mod 10)]"

definition digits4 :: "nat \<Rightarrow> string" where
  "digits4 n = digits2 (n div 100) @ digits2 (n mod 100)"

definition field_text :: "bool \<Rightarrow> nat \<Rightarrow> string" where
  "field_text pad n = (if pad \<or> 10 \<le> n then digits2 n else [dch n])"

definition month_abbr :: "nat \<Rightarrow> string" where
  "month_abbr m =
     [''Jan'', ''Feb'', ''Mar'', ''Apr'', ''May'', ''Jun'',
      ''Jul'', ''Aug'', ''Sep'', ''Oct'', ''Nov'', ''Dec''] ! (m - 1)"

definition am_markers :: "string list" where
  "am_markers = [''am'', ''Am'', ''aM'', ''AM'']"

definition pm_markers :: "string list" where
  "pm_markers = [''pm'', ''Pm'', ''pM'', ''PM'']"

record ts_text =
  tt_month :: nat
  tt_day :: nat
  tt_year :: nat
  tt_hour :: nat
  tt_minute :: nat
  tt_second :: nat
  tt_marker :: string
  tt_day_pad :: bool
  tt_hour_pad :: bool
  tt_spaces :: "string list"

definition valid_ts_text :: "ts_text \<Rightarrow> bool" where
  "valid_ts_text t =
     (1 \<le> tt_month t \<and> tt_month t \<le> 12
      \<and> 1 \<le> tt_year t \<and> tt_year t \<le> 9999
      \<and> 1 \<le> tt_day t \<and> tt_day t \<le> days_in_month (tt_year t) (tt_month t)
      \<and> 1 \<le> tt_hour t \<and> tt_hour t \<le> 12
      \<and> tt_minute t \<le> 59 \<and> tt_second t \<le> 59
      \<and> (tt_marker t \<in> set am_markers \<or> tt_marker t \<in> set pm_markers)
      \<and> length (tt_spaces t) = 6
      \<and> list_all (list_all is_space) (tt_spaces t)
      \<and> list_all (\<lambda>sp. sp \<noteq> []) (butlast (tl (tt_spaces t))))"

definition to_text :: "ts_text \<Rightarrow> string" where
  "to_text t =
     tt_spaces t ! 0 @ month_abbr (tt_month t)
     @ tt_spaces t ! 1 @ field_text (tt_day_pad t) (tt_day t) @ [CHR '','']
     @ tt_spaces t ! 2 @ digits4 (tt_year t)
     @ tt_spaces t ! 3 @ field_text (tt_hour_pad t) (tt_hour t)
     @ [CHR '':''] @ digits2 (tt_minute t) @ [CHR '':''] @ digits2 (tt_second t)
     @ tt_spaces t ! 4 @ tt_marker t
     @ tt_spaces t ! 5"

text \<open>
  The instant such a string denotes, on the 24-hour clock: 12 am is hour 0 and 12 pm is
  hour 12.
\<close>

definition instant_of :: "ts_text \<Rightarrow> datetime" where
  "instant_of t =
     (tt_year t, tt_month t, tt_day t,
      tt_hour t mod 12 + (if tt_marker t \<in> set pm_markers then 12 else 0),
      tt_minute t, tt_second t, 0)"

text \<open>Auxiliary predicates on the pieces of such a string.\<close>

definition month_ok :: "nat \<Rightarrow> bool" where
  "month_ok m \<longleftrightarrow>
     length (month_abbr m) = 3 \<and> index_of a_month (lower (month_abbr m)) = Some (m - 1)
     \<and> list_all (\<lambda>c. \<not> is_space c) (month_abbr m)"

definition marker_ok :: "string \<Rightarrow> bool" where
  "marker_ok k \<longleftrightarrow>
     k \<noteq> [] \<and> list_all (\<lambda>c. \<not> is_space c) k \<and> \<not> is_space (last k)
     \<and> sub_ampm (CHR '' '' # k)
         = CHR '' '' # (if k \<in> set pm_markers then ''PM'' else ''AM'')"

definition dword :: "string \<Rightarrow> bool" where
  "dword w \<longleftrightarrow> (\<exists>a w'. a < 10 \<and> w = dch a # w' \<and> list_all (\<lambda>c. \<not> is_space c) w')"

subsection \<open>Message text\<close>

definition nl :: char where
  "nl = CHR 0x0A"

text \<open>
  \<^verbatim>\<open>re.sub(r"\n{3,}", "\n\n", text)\<close>: scanning from the left, a maximal run of newline
  characters is replaced by two of them when it has three or more, and copied otherwise.
\<close>

function sub_newlines :: "string \<Rightarrow> string" where
  "sub_newlines s =
     (case s of
        [] \<Rightarrow> []
      | c # cs \<Rightarrow>
          if c = nl then
            (let n = length (takeWhile (\<lambda>x. x = nl) s)
             in (if 3 \<le> n then [nl, nl] else replicate n nl)
                @ sub_newlines (dropWhile (\<lambda>x. x = nl) cs))
          else c # sub_newlines cs)"
  by pat_completeness auto
termination
  by (relation "measure length") (auto simp: less_Suc_eq_le length_dropWhile_le)

text \<open>
  The last two lines of \<^verbatim>\<open>_extract_message_text_and_meta\<close>, applied to the string
  \<open>raw\<close> that \<^verbatim>\<open>body.get_text("\n", strip=True)\<close> returned.
\<close>

definition clean_text :: "string \<Rightarrow> string" where
  "clean_text raw = strip (sub_newlines raw)"

text \<open>
  The lines of a text, as \<^verbatim>\<open>text.split("\n")\<close> gives them; a blank line is an empty
  element of this list.
\<close>

fun lines_of :: "string \<Rightarrow> string list" where
  "lines_of [] = [[]]"
| "lines_of (c # cs) =
     (if c = nl then [] # lines_of cs
      else (c # hd (lines_of cs)) # tl (lines_of cs))"

subsection \<open>Dataset writer\<close>

text \<open>
  The part of the world \<^verbatim>\<open>save_to_csv\<close> can touch: the directories, the files with their
  contents, and the lines printed.  A path is the list of its components; \<open>butlast\<close> is
  \<^verbatim>\<open>Path.parent\<close>.  A CSV file is kept as its header and its rows.
\<close>

type_synonym path = "string list"

datatype diag = NoMessagesToSave | Saved nat path

datatype os_error = FileExistsError | IsADirectoryError | FileNotFoundError

record 'c world =
  world_dirs :: "path set"
  world_files :: "path \<rightharpoonup> string list \<times> 'c row list"
  world_stdout :: "diag list"

text \<open>
  \<^verbatim>\<open>Path.mkdir(parents=True, exist_ok=True)\<close>: every missing ancestor and the directory
  itself are created; it fails when one of them exists as a file.
\<close>

definition mkdir_parents :: "'c world \<Rightarrow> path \<Rightarrow> (os_error \<times> 'c world) + 'c world" where
  "mkdir_parents w p =
     (if list_ex (\<lambda>q. world_files w q \<noteq> None) (prefixes p) then Inl (FileExistsError, w)
      else Inr (w\<lparr>world_dirs := world_dirs w \<union> set (prefixes p)\<rparr>))"

text \<open>\<^verbatim>\<open>open("w")\<close> followed by the writes: the file is created or replaced.\<close>

definition open_write ::
  "'c world \<Rightarrow> path \<Rightarrow> string list \<times> 'c row list \<Rightarrow> (os_error \<times> 'c world) + 'c world" where
  "open_write w p c =
     (if p \<in> world_dirs w \<or> p = [] then Inl (IsADirectoryError, w)
      else if butlast p \<noteq> [] \<and> butlast p \<notin> world_dirs w then Inl (FileNotFoundError, w)
      else Inr (w\<lparr>world_files := (world_files w)(p \<mapsto> c)\<rparr>))"

definition fieldnames :: "string list" where
  "fieldnames =
     [''conversation_id'', ''msg_id'', ''role'', ''text'', ''has_image'', ''image_count'',
      ''has_link'', ''link_count'', ''is_media_only'']"

definition save_to_csv ::
  "('k, 'c) extractor \<Rightarrow> path \<Rightarrow> 'c world \<Rightarrow> (os_error \<times> 'c world) + 'c world" where
  "save_to_csv self output_path w =
     (if rows self = [] then Inr (w\<lparr>world_stdout := world_stdout w @ [NoMessagesToSave]\<rparr>)
      else
        case mkdir_parents w (butlast output_path) of
          Inl e \<Rightarrow> Inl e
        | Inr w1 \<Rightarrow>
            (case open_write w1 output_path (fieldnames, rows self) of
               Inl e \<Rightarrow> Inl e
             | Inr w2 \<Rightarrow>
                 Inr (w2\<lparr>world_stdout := world_stdout w2 @ [Saved (length (rows self)) output_path]\<rparr>)))"

subsection \<open>Example inputs\<close>

text \<open>
  A thread of two documents, named 11 and 12: document 11 holds an undated text message and
  a dated picture, document 12 an earlier dated message; document 13 does not parse.
\<close>

definition ex_msg :: "string \<Rightarrow> string \<Rightarrow> datetime option \<Rightarrow> bool \<Rightarrow> ParsedMessage" where
  "ex_msg s t ts img =
     \<lparr> sender_name = s, msg_text = t, timestamp = ts, has_image = img,
       image_count = of_bool img, has_link = False, link_count = 0 \<rparr>"

definition ex_m1 :: ParsedMessage where
  "ex_m1 = ex_msg ''Support Team'' ''hello'' None False"

definition ex_m2 :: ParsedMessage where
  "ex_m2 = ex_msg ''jane doe'' '' '' (Some (2026, 1, 11, 21, 2, 58, 0)) True"

definition ex_m3 :: ParsedMessage where
  "ex_m3 = ex_msg ''Jane Doe'' ''hi'' (Some (2026, 1, 11, 9, 0, 0, 0)) False"

definition ex_parse :: "nat parser" where
  "ex_parse fp =
     (if fp = 11 then Some (''Jane Doe'', [ex_m1, ex_m2])
      else if fp = 12 then Some ([], [ex_m3])
      else None)"

definition ex_extractor :: "(nat, nat) extractor" where
  "ex_extractor = \<lparr> id_map = (Map.empty, 0), rows = [] \<rparr>"

definition ex_uuid4 :: "nat \<Rightarrow> nat" where
  "ex_uuid4 n = 100 + n"

definition ex_thread_key :: "nat \<Rightarrow> nat" where
  "ex_thread_key fp = (if fp = 13 then 7 else 5)"

text \<open>The rows that the run over the documents 11, 12 and 13 produces.\<close>

definition ex_row1 :: "nat row" where
  "ex_row1 =
     \<lparr> row_conversation_id = 100, row_msg_id = 1, row_role = ''customer'', row_text = ''hi'',
       row_has_image = 0, row_image_count = 0, row_has_link = 0, row_link_count = 0,
       row_is_media_only = 0 \<rparr>"

definition ex_row2 :: "nat row" where
  "ex_row2 =
     \<lparr> row_conversation_id = 100, row_msg_id = 2, row_role = ''customer'', row_text = [],
       row_has_image = 1, row_image_count = 1, row_has_link = 0, row_link_count = 0,
       row_is_media_only = 1 \<rparr>"

definition ex_row3 :: "nat row" where
  "ex_row3 =
     \<lparr> row_conversation_id = 100, row_msg_id = 3, row_role = ''assistant'', row_text = ''hello'',
       row_has_image = 0, row_image_count = 0, row_has_link = 0, row_link_count = 0,
       row_is_media_only = 0 \<rparr>"

text \<open>An ID map that already binds the thread key 5.\<close>

definition ex_id_map :: "(nat \<rightharpoonup> nat) \<times> nat" where
  "ex_id_map = ([5 \<mapsto> 42], 0)"

text \<open>An empty world, and an extractor that holds one row.\<close>

definition ex_world :: "nat world" where
  "ex_world = \<lparr> world_dirs = {[]}, world_files = Map.empty, world_stdout = [] \<rparr>"

definition ex_extractor_rows :: "(nat, nat) extractor" where
  "ex_extractor_rows = \<lparr> id_map = (Map.empty, 0), rows = [ex_row1] \<rparr>"

text \<open>Two timestamps of the same evening, spelled with irregular spacing and casing.\<close>

definition ex_ts_a :: ts_text where
  "ex_ts_a =
     \<lparr> tt_month = 1, tt_day = 11, tt_year = 2026, tt_hour = 12, tt_minute = 2, tt_second = 58,
       tt_marker = ''pm'', tt_day_pad = False, tt_hour_pad = False,
       tt_spaces = [[], [CHR 0x20], [CHR 0x20, CHR 0x20], [CHR 0x20], [CHR 0x20], []] \<rparr>"

definition ex_ts_b :: ts_text where
  "ex_ts_b =
     \<lparr> tt_month = 1, tt_day = 11, tt_year = 2026, tt_hour = 9, tt_minute = 2, tt_second = 58,
       tt_marker = ''Pm'', tt_day_pad = False, tt_hour_pad = True,
       tt_spaces = [[CHR '' ''], [CHR '' ''], [CHR '' ''], [CHR '' '', CHR 0x09, CHR '' ''],
                    [CHR 0xA0], [CHR 0x0A]] \<rparr>"

text \<open>A string that misses the blank after the comma, and a date that does not exist.\<close>

definition ex_raw_no_blank :: string where
  "ex_raw_no_blank = ''Jan 11,2026 9:02:58 PM''"

definition ex_raw_no_date :: string where
  "ex_raw_no_date = ''Feb 29, 2023 9:02:58 PM''"

section \<open>Properties\<close>

subsection \<open>Ordering of a thread's messages\<close>


lemma collect_thread_snd:
  "snd (collect_thread parse fps acc) =
     snd acc @ concat (map (\<lambda>fp. case parse fp of None \<Rightarrow> [] | Some (cn, ms) \<Rightarrow> ms) fps)"
  by (induction fps arbitrary: acc) (auto split: option.splits)

lemma sort_key_of_eq_dated:
  "timestamp k = Some t \<Longrightarrow> sort_key_of k = sort_key_of x \<longleftrightarrow> timestamp x = Some t"
  by (cases "timestamp x") (auto simp: sort_key_of_def)

lemma sort_key_of_eq_undated:
  "timestamp k = None \<Longrightarrow> sort_key_of k = sort_key_of x \<longleftrightarrow> timestamp x = None"
  by (cases "timestamp x") (auto simp: sort_key_of_def)

lemma sorted_dated_undated:
  assumes "sorted (map (\<lambda>m. the (timestamp m)) ds)" "\<forall>m\<in>set ds. timestamp m \<noteq> None"
    "\<forall>m\<in>set us. timestamp m = None"
  shows "sorted (map sort_key_of (ds @ us))"
proof -
  have d: "map sort_key_of ds = map (\<lambda>m. (False, the (timestamp m))) ds"
    using assms(2) by (auto simp: sort_key_of_def)
  have u: "map sort_key_of us = map (\<lambda>m. (True, datetime_min)) us"
    using assms(3) by (auto simp: sort_key_of_def)
  have "sorted (map (\<lambda>m. (False, the (timestamp m))) ds)"
    using assms(1) by (induction ds) (auto simp: less_eq_prod_def)
  moreover have "sorted (map (\<lambda>m. (True, datetime_min)) us)"
    by (induction us) auto
  ultimately show ?thesis
    by (auto simp: sorted_append d u less_eq_prod_def)
qed

lemma filter_None_sort_Some:
  "filter (\<lambda>x. g x = None) (sort_key f (filter (\<lambda>m. g m \<noteq> None) c)) = []"
  by (induction c) (auto simp: filter_empty_conv)

lemma filter_Some_None:
  "filter (\<lambda>x. g x = Some t) (filter (\<lambda>m. g m = None) c) = []"
  by (induction c) auto

lemma filter_Some_the:
  "filter (\<lambda>x. the (g x) = t) (filter (\<lambda>m. g m \<noteq> None) c)
     = filter (\<lambda>x. g x = Some t) c"
  by (induction c) auto

lemma filter_Some_sort_the:
  "filter (\<lambda>x. g x = Some t) (sort_key (\<lambda>m. the (g m)) (filter (\<lambda>m. g m \<noteq> None) c))
     = filter (\<lambda>x. g x = Some t) c"
proof -
  let ?d = "filter (\<lambda>m. g m \<noteq> None) c"
  have "filter (\<lambda>x. g x = Some t) (sort_key (\<lambda>m. the (g m)) ?d)
          = filter (\<lambda>x. the (g x) = t) (sort_key (\<lambda>m. the (g m)) ?d)"
    by (rule filter_cong) auto
  also have "\<dots> = filter (\<lambda>x. the (g x) = t) ?d"
    by (rule sort_key_stable)
  finally show ?thesis
    by (simp only: filter_Some_the)
qed

lemma dated_then_undated:
  "sort_key sort_key_of c =
     sort_key (\<lambda>m. the (timestamp m)) (filter (\<lambda>m. timestamp m \<noteq> None) c)
       @ filter (\<lambda>m. timestamp m = None) c"
  (is "_ = ?ds @ ?us")
proof (rule properties_for_sort_key)
  show "mset (?ds @ ?us) = mset c"
    by (induction c) auto
next
  fix k assume "k \<in> set (?ds @ ?us)"
  show "filter (\<lambda>x. sort_key_of k = sort_key_of x) (?ds @ ?us) = filter (\<lambda>x. sort_key_of k = sort_key_of x) c"
  proof (cases "timestamp k")
    case None
    then show ?thesis
      by (simp only: sort_key_of_eq_undated filter_append filter_None_sort_Some filter_filter)
         simp
  next
    case (Some t)
    then show ?thesis
      by (simp only: sort_key_of_eq_dated filter_append filter_Some_sort_the filter_Some_None
            append_Nil2)
  qed
next
  have "\<forall>m\<in>set ?ds. timestamp m \<noteq> None"
    by (simp only: set_sort set_filter) blast
  moreover have "\<forall>m\<in>set ?us. timestamp m = None"
    by (simp only: set_filter) blast
  ultimately show "sorted (map sort_key_of (?ds @ ?us))"
    by (intro sorted_dated_undated sorted_sort_key)
qed

lemma collect_thread_concat:
  "snd (collect_thread parse (sort files) ([], [])) = thread_concat parse files"
  by (simp add: collect_thread_snd thread_concat_def doc_msgs_def [abs_def])

lemma list_ex_dated: "list_ex (\<lambda>m. timestamp m \<noteq> None) c \<longleftrightarrow> (\<exists>m\<in>set c. timestamp m \<noteq> None)"
  by (simp only: list_ex_iff)

text \<open>
  Claim C1.  The messages of a thread are the concatenation of the message lists of its
  documents, taken in sorted path order; when at least one of them is dated the list is
  sorted by the key (timestamp is absent, timestamp): the result is ordered by that key,
  is a permutation of the concatenation, keeps the messages of equal key in their
  original relative order, and consists of the dated messages in time order followed by
  the undated ones in their original order.  When no message is dated the concatenation
  is kept as it is.
\<close>

theorem thread_order:
  "thread_msgs parse files =
     (if \<exists>m\<in>set (thread_concat parse files). timestamp m \<noteq> None
      then sort_key sort_key_of (thread_concat parse files)
      else thread_concat parse files)
   \<and> ((\<exists>m\<in>set (thread_concat parse files). timestamp m \<noteq> None) \<longrightarrow>
        sorted (map sort_key_of (thread_msgs parse files))
      \<and> mset (thread_msgs parse files) = mset (thread_concat parse files)
      \<and> (\<forall>k. filter (\<lambda>m. sort_key_of m = k) (thread_msgs parse files)
              = filter (\<lambda>m. sort_key_of m = k) (thread_concat parse files))
      \<and> thread_msgs parse files
          = sort_key (\<lambda>m. the (timestamp m))
              (filter (\<lambda>m. timestamp m \<noteq> None) (thread_concat parse files))
            @ filter (\<lambda>m. timestamp m = None) (thread_concat parse files))"
proof -
  have eq: "thread_msgs parse files =
     (if \<exists>m\<in>set (thread_concat parse files). timestamp m \<noteq> None
      then sort_key sort_key_of (thread_concat parse files)
      else thread_concat parse files)"
    unfolding thread_msgs_def order_msgs_def collect_thread_concat list_ex_dated ..
  show ?thesis
  proof (cases "\<exists>m\<in>set (thread_concat parse files). timestamp m \<noteq> None")
    case True
    then have s: "thread_msgs parse files = sort_key sort_key_of (thread_concat parse files)"
      by (simp only: eq if_True)
    have "thread_msgs parse files
          = sort_key (\<lambda>m. the (timestamp m))
              (filter (\<lambda>m. timestamp m \<noteq> None) (thread_concat parse files))
            @ filter (\<lambda>m. timestamp m = None) (thread_concat parse files)"
      unfolding s by (rule dated_then_undated)
    moreover have "sorted (map sort_key_of (thread_msgs parse files))"
      unfolding s by (rule sorted_sort_key)
    moreover have "mset (thread_msgs parse files) = mset (thread_concat parse files)"
      unfolding s by (rule mset_sort)
    moreover have "\<forall>k. filter (\<lambda>m. sort_key_of m = k) (thread_msgs parse files)
              = filter (\<lambda>m. sort_key_of m = k) (thread_concat parse files)"
      unfolding s by (rule allI) (rule sort_key_stable)
    ultimately show ?thesis using eq by blast
  next
    case False
    then show ?thesis using eq by blast
  qed
qed


lemma ex_concat: "thread_concat ex_parse [12, 11] = [ex_m1, ex_m2, ex_m3]"
  by code_simp

lemma ex_sorted: "sort_key sort_key_of [ex_m1, ex_m2, ex_m3] = [ex_m3, ex_m2, ex_m1]"
  by code_simp

lemma ex_dated: "\<exists>m\<in>set [ex_m1, ex_m2, ex_m3]. timestamp m \<noteq> None"
  by (simp add: ex_m2_def ex_msg_def)

theorem thread_order_witness:
  "(\<exists>m\<in>set (thread_concat ex_parse [12, 11]). timestamp m \<noteq> None)
   \<and> thread_concat ex_parse [12, 11] = [ex_m1, ex_m2, ex_m3]
   \<and> thread_msgs ex_parse [12, 11] = [ex_m3, ex_m2, ex_m1]"
  using thread_order [of ex_parse "[12, 11]"] ex_dated
  by (simp only: ex_concat ex_sorted if_True simp_thms)

subsection \<open>Grouping of documents into threads\<close>




lemma setdefault_append_keys:
  "map fst (setdefault_append th k hp) = (if k \<in> fst ` set th then map fst th else map fst th @ [k])"
  by (induction th k hp rule: setdefault_append.induct) auto

lemma setdefault_append_distinct:
  "distinct (map fst th) \<Longrightarrow> distinct (map fst (setdefault_append th k hp))"
  by (simp add: setdefault_append_keys)

lemma setdefault_append_lookup:
  "distinct (map fst th) \<Longrightarrow>
   map_of (setdefault_append th k hp) k' =
     (if k' = k then Some ((case map_of th k of None \<Rightarrow> [] | Some fs \<Rightarrow> fs) @ [hp]) else map_of th k')"
  by (induction th k hp rule: setdefault_append.induct) (auto simp: image_iff)

lemma group_threads_snoc:
  "group_threads tk (fs @ [hp]) = setdefault_append (group_threads tk fs) (tk hp) hp"
  by (simp add: group_threads_def)

lemma group_threads_distinct: "distinct (map fst (group_threads tk fs))"
  by (induction fs rule: rev_induct)
     (simp_all add: group_threads_snoc setdefault_append_distinct, simp add: group_threads_def)

lemma group_threads_keys: "fst ` set (group_threads tk fs) = tk ` set fs"
proof (induction fs rule: rev_induct)
  case Nil
  then show ?case by (simp add: group_threads_def)
next
  case (snoc hp fs)
  have "set (map fst (group_threads tk (fs @ [hp]))) = insert (tk hp) (set (map fst (group_threads tk fs)))"
    unfolding group_threads_snoc setdefault_append_keys by auto
  then show ?case using snoc by auto
qed

lemma group_threads_lookup:
  "map_of (group_threads tk fs) k =
     (if k \<in> tk ` set fs then Some (filter (\<lambda>f. tk f = k) fs) else None)"
proof (induction fs arbitrary: k rule: rev_induct)
  case Nil
  then show ?case by (simp add: group_threads_def)
next
  case (snoc hp fs)
  have e: "tk hp \<notin> tk ` set fs \<Longrightarrow> filter (\<lambda>f. tk f = tk hp) fs = []"
    unfolding filter_empty_conv by (metis imageI)
  show ?case
    unfolding group_threads_snoc
    by (auto simp: setdefault_append_lookup [OF group_threads_distinct] snoc e)
qed

lemma sorted_threads_set: "set (sorted_threads tk fs) = set (group_threads tk fs)"
  by (simp add: sorted_threads_def)

lemma sorted_threads_keys: "fst ` set (sorted_threads tk fs) = tk ` set fs"
  by (simp add: sorted_threads_set group_threads_keys)

lemma sorted_threads_files:
  assumes "(k, files) \<in> set (sorted_threads tk fs)"
  shows "files = filter (\<lambda>f. tk f = k) fs \<and> files \<noteq> []"
proof -
  have "map_of (group_threads tk fs) k = Some files"
    using assms group_threads_distinct [of tk fs] by (simp add: sorted_threads_set)
  then show ?thesis
    by (auto simp: group_threads_lookup filter_empty_conv split: if_splits)
qed

lemma sorted_threads_sorted:
  "sorted (map fst (sorted_threads tk fs)) \<and> distinct (map fst (sorted_threads tk fs))"
proof -
  have "mset (map fst (sorted_threads tk fs)) = mset (map fst (group_threads tk fs))"
    by (simp add: sorted_threads_def)
  then have "distinct (map fst (sorted_threads tk fs))"
    using group_threads_distinct [of tk fs] by (metis mset_eq_imp_distinct_iff)
  then show ?thesis by (simp add: sorted_threads_def)
qed

subsection \<open>The run\<close>


lemma goc_present:
  "fst st k = Some cid \<Longrightarrow> get_or_create_conversation_id u st k = (cid, st)"
  by (simp add: get_or_create_conversation_id_def)

lemma goc_absent:
  "fst st k = None \<Longrightarrow>
   get_or_create_conversation_id u st k = (u (snd st), (fst st)(k \<mapsto> u (snd st)), Suc (snd st))"
  by (simp add: get_or_create_conversation_id_def)

lemma goc_map_le: "fst st \<subseteq>\<^sub>m fst (snd (get_or_create_conversation_id u st k))"
  by (cases "fst st k") (auto simp: goc_present goc_absent map_le_def)

lemma goc_bound:
  "fst (snd (get_or_create_conversation_id u st k)) k = Some (fst (get_or_create_conversation_id u st k))"
  by (cases "fst st k") (auto simp: goc_present goc_absent)

lemma goc_dom:
  "dom (fst (snd (get_or_create_conversation_id u st k))) = insert k (dom (fst st))"
  by (cases "fst st k") (auto simp: goc_present goc_absent)

lemma process_thread_id_map:
  "id_map (process_thread u p ex kf) = snd (get_or_create_conversation_id u (id_map ex) (fst kf))"
  by (simp add: process_thread_def case_prod_beta)

lemma process_thread_rows:
  "rows (process_thread u p ex kf) =
     rows ex @ thread_rows p (fst (get_or_create_conversation_id u (id_map ex) (fst kf))) (snd kf)"
  by (simp add: process_thread_def case_prod_beta)

lemma process_thread_id_map_indep:
  "id_map ex = id_map ex' \<Longrightarrow> id_map (process_thread u p ex kf) = id_map (process_thread u p' ex' kf)"
  by (simp add: process_thread_id_map)

lemma run_id_map_indep:
  "id_map ex = id_map ex' \<Longrightarrow>
   id_map (foldl (process_thread u p) ex ths) = id_map (foldl (process_thread u p') ex' ths)"
proof (induction ths arbitrary: ex ex')
  case Nil
  then show ?case by simp
next
  case (Cons kf ths)
  have "id_map (process_thread u p ex kf) = id_map (process_thread u p' ex' kf)"
    using Cons.prems by (rule process_thread_id_map_indep)
  then have "id_map (foldl (process_thread u p) (process_thread u p ex kf) ths) =
             id_map (foldl (process_thread u p') (process_thread u p' ex' kf) ths)"
    by (rule Cons.IH)
  then show ?case by simp
qed

lemma run_map_le:
  "fst (id_map ex) \<subseteq>\<^sub>m fst (id_map (foldl (process_thread u p) ex ths))"
proof (induction ths arbitrary: ex)
  case Nil
  show ?case by simp
next
  case (Cons kf ths)
  have "fst (id_map ex) \<subseteq>\<^sub>m fst (id_map (process_thread u p ex kf))"
    by (simp add: process_thread_id_map goc_map_le)
  then show ?case
    using Cons [of "process_thread u p ex kf"] by (auto intro: map_le_trans)
qed

lemma run_dom:
  "dom (fst (id_map (foldl (process_thread u p) ex ths))) = dom (fst (id_map ex)) \<union> fst ` set ths"
  by (induction ths arbitrary: ex) (auto simp: process_thread_id_map goc_dom)

lemma run_rows_aux:
  "rows (foldl (process_thread u p) ex ths) =
     rows ex @ concat (map (\<lambda>kf. thread_rows p
        (the (fst (id_map (foldl (process_thread u p) ex ths)) (fst kf))) (snd kf)) ths)"
proof (induction ths arbitrary: ex)
  case Nil
  show ?case by simp
next
  case (Cons kf ths)
  let ?ex1 = "process_thread u p ex kf"
  let ?fin = "fst (id_map (foldl (process_thread u p) ?ex1 ths))"
  have "fst (id_map ?ex1) (fst kf) = Some (fst (get_or_create_conversation_id u (id_map ex) (fst kf)))"
    by (simp add: process_thread_id_map goc_bound)
  moreover have "fst (id_map ?ex1) \<subseteq>\<^sub>m ?fin"
    by (rule run_map_le)
  ultimately have "?fin (fst kf) = Some (fst (get_or_create_conversation_id u (id_map ex) (fst kf)))"
    by (metis (no_types) domI map_le_def)
  then show ?case
    by (simp add: Cons [of ?ex1] process_thread_rows)
qed

lemma make_row_msg_id: "row_msg_id (make_row cid cn im) = fst im"
  by (simp add: make_row_def Let_def)

lemma thread_rows_msg_ids:
  "map row_msg_id (thread_rows p cid files) = [1..<Suc (length (thread_msgs p files))]"
  by (simp add: thread_rows_def make_row_msg_id comp_def)

lemma thread_rows_length: "length (thread_rows p cid files) = length (thread_msgs p files)"
  by (simp add: thread_rows_def)

lemma make_row_media:
  "row_is_media_only (make_row cid cn im) = 1 \<longleftrightarrow>
     row_text (make_row cid cn im) = [] \<and>
     (row_has_image (make_row cid cn im) = 1 \<or> row_has_link (make_row cid cn im) = 1)"
  by (simp add: make_row_def Let_def)

subsection \<open>Rows of a run\<close>


lemma process_directory_snd:
  "snd (process_directory u tk p ex files) = fst (id_map (fst (process_directory u tk p ex files)))"
  by (simp add: process_directory_def Let_def)

lemma process_directory_fst:
  "fst (process_directory u tk p ex files) = foldl (process_thread u p) ex (sorted_threads tk files)"
  by (simp add: process_directory_def Let_def)

lemma run_rows:
  "rows (fst (process_directory u tk p ex files)) =
     rows ex @ concat (map (\<lambda>kf. thread_rows p
        (the (snd (process_directory u tk p ex files) (fst kf))) (snd kf)) (sorted_threads tk files))"
  unfolding process_directory_snd unfolding process_directory_fst by (rule run_rows_aux)

lemma thread_rows_nth:
  "i < length (thread_msgs p files) \<Longrightarrow>
   thread_rows p cid files ! i =
     make_row cid (fst (collect_thread p (sort files) ([], []))) (Suc i, thread_msgs p files ! i)"
  by (simp add: thread_rows_def nth_enumerate_eq)

lemma make_row_text: "row_text (make_row cid cn im) = strip (msg_text (snd im))"
  by (simp add: make_row_def Let_def)

lemma thread_rows_make_row:
  "r \<in> set (thread_rows p cid files) \<Longrightarrow> \<exists>cn im. r = make_row cid cn im"
  by (auto simp: thread_rows_def)

text \<open>
  Claim C2.  Every row that a run of \<^verbatim>\<open>process_directory\<close> appends has the media-only
  flag 1 exactly when its cleaned text is empty and its image flag or its link flag is 1.
\<close>

theorem media_only_flag:
  assumes "rows (fst (process_directory uuid4 thread_key_for_file parse ex html_files)) = rows ex @ new"
    and "r \<in> set new"
  shows "row_is_media_only r = 1 \<longleftrightarrow>
           row_text r = [] \<and> (row_has_image r = 1 \<or> row_has_link r = 1)"
proof -
  let ?saved = "snd (process_directory uuid4 thread_key_for_file parse ex html_files)"
  have "new = concat (map (\<lambda>kf. thread_rows parse (the (?saved (fst kf))) (snd kf))
                 (sorted_threads thread_key_for_file html_files))"
    using assms(1) run_rows [of uuid4 thread_key_for_file parse ex html_files] by simp
  with assms(2) obtain kf where "r \<in> set (thread_rows parse (the (?saved (fst kf))) (snd kf))"
    by auto
  from thread_rows_make_row [OF this]
  obtain cn im where "r = make_row (the (?saved (fst kf))) cn im"
    by auto
  then show ?thesis
    by (simp only: make_row_media)
qed

lemma thread_msgs_eq:
  "thread_msgs parse files =
     (if \<exists>m\<in>set (thread_concat parse files). timestamp m \<noteq> None
      then sort_key sort_key_of (thread_concat parse files)
      else thread_concat parse files)"
  unfolding thread_msgs_def order_msgs_def collect_thread_concat list_ex_dated ..

lemma thread_msgs_chronological:
  assumes "\<exists>m\<in>set (thread_concat parse files). timestamp m \<noteq> None"
  shows "sorted (map sort_key_of (thread_msgs parse files))"
    and "thread_msgs parse files
          = sort_key (\<lambda>m. the (timestamp m))
              (filter (\<lambda>m. timestamp m \<noteq> None) (thread_concat parse files))
            @ filter (\<lambda>m. timestamp m = None) (thread_concat parse files)"
proof -
  have s: "thread_msgs parse files = sort_key sort_key_of (thread_concat parse files)"
    using assms by (simp only: thread_msgs_eq if_True)
  show "sorted (map sort_key_of (thread_msgs parse files))"
    unfolding s by (rule sorted_sort_key)
  show "thread_msgs parse files
          = sort_key (\<lambda>m. the (timestamp m))
              (filter (\<lambda>m. timestamp m \<noteq> None) (thread_concat parse files))
            @ filter (\<lambda>m. timestamp m = None) (thread_concat parse files)"
    unfolding s by (rule dated_then_undated)
qed

lemma thread_msgs_nth_mono:
  assumes "\<exists>m\<in>set (thread_concat parse files). timestamp m \<noteq> None"
    and "i < j" "j < length (thread_msgs parse files)"
  shows "sort_key_of (thread_msgs parse files ! i) \<le> sort_key_of (thread_msgs parse files ! j)"
proof -
  have "sorted (map sort_key_of (thread_msgs parse files))"
    using assms(1) by (rule thread_msgs_chronological)
  from sorted_nth_mono [OF this, of i j] assms(2,3) show ?thesis
    by simp
qed

text \<open>
  Claim C3.  The rows a run appends are one block per thread, in the order of the sorted
  (pairwise distinct) thread keys; the block of a thread with \<open>k\<close> messages has length \<open>k\<close>
  and carries the message numbers 1, ..., \<open>k\<close> in this order, the row at position \<open>i\<close>
  being the row built from the \<open>i\<close>-th message of the final thread order.  That order is
  the chronological one: the concatenation of the documents sorted by (timestamp is
  absent, timestamp) when a message is dated, so that a row with a smaller number never
  belongs to a later message.
\<close>

theorem msg_ids_contiguous:
  "rows (fst (process_directory uuid4 thread_key_for_file parse ex html_files)) =
     rows ex @ concat (map (\<lambda>kf. thread_rows parse
        (the (snd (process_directory uuid4 thread_key_for_file parse ex html_files) (fst kf))) (snd kf))
        (sorted_threads thread_key_for_file html_files))
   \<and> distinct (map fst (sorted_threads thread_key_for_file html_files))
   \<and> map row_msg_id (thread_rows parse cid files) = [1..<Suc (length (thread_rows parse cid files))]
   \<and> length (thread_rows parse cid files) = length (thread_msgs parse files)
   \<and> (\<forall>i<length (thread_msgs parse files).
         row_msg_id (thread_rows parse cid files ! i) = Suc i
       \<and> row_text (thread_rows parse cid files ! i) = strip (msg_text (thread_msgs parse files ! i))
       \<and> thread_rows parse cid files ! i
           = make_row cid (fst (collect_thread parse (sort files) ([], [])))
               (Suc i, thread_msgs parse files ! i))
   \<and> thread_msgs parse files =
       (if \<exists>m\<in>set (thread_concat parse files). timestamp m \<noteq> None
        then sort_key sort_key_of (thread_concat parse files)
        else thread_concat parse files)
   \<and> ((\<exists>m\<in>set (thread_concat parse files). timestamp m \<noteq> None) \<longrightarrow>
        sorted (map sort_key_of (thread_msgs parse files))
      \<and> thread_msgs parse files
          = sort_key (\<lambda>m. the (timestamp m))
              (filter (\<lambda>m. timestamp m \<noteq> None) (thread_concat parse files))
            @ filter (\<lambda>m. timestamp m = None) (thread_concat parse files)
      \<and> (\<forall>i j. i < j \<and> j < length (thread_msgs parse files) \<longrightarrow>
            row_msg_id (thread_rows parse cid files ! i) < row_msg_id (thread_rows parse cid files ! j)
          \<and> sort_key_of (thread_msgs parse files ! i) \<le> sort_key_of (thread_msgs parse files ! j)))"
proof -
  have n: "\<forall>i<length (thread_msgs parse files).
         row_msg_id (thread_rows parse cid files ! i) = Suc i
       \<and> row_text (thread_rows parse cid files ! i) = strip (msg_text (thread_msgs parse files ! i))
       \<and> thread_rows parse cid files ! i
           = make_row cid (fst (collect_thread parse (sort files) ([], [])))
               (Suc i, thread_msgs parse files ! i)"
    by (simp add: thread_rows_nth make_row_msg_id make_row_text)
  have c: "(\<exists>m\<in>set (thread_concat parse files). timestamp m \<noteq> None) \<longrightarrow>
        sorted (map sort_key_of (thread_msgs parse files))
      \<and> thread_msgs parse files
          = sort_key (\<lambda>m. the (timestamp m))
              (filter (\<lambda>m. timestamp m \<noteq> None) (thread_concat parse files))
            @ filter (\<lambda>m. timestamp m = None) (thread_concat parse files)
      \<and> (\<forall>i j. i < j \<and> j < length (thread_msgs parse files) \<longrightarrow>
            row_msg_id (thread_rows parse cid files ! i) < row_msg_id (thread_rows parse cid files ! j)
          \<and> sort_key_of (thread_msgs parse files ! i) \<le> sort_key_of (thread_msgs parse files ! j))"
  proof
    assume d: "\<exists>m\<in>set (thread_concat parse files). timestamp m \<noteq> None"
    have "\<forall>i j. i < j \<and> j < length (thread_msgs parse files) \<longrightarrow>
            row_msg_id (thread_rows parse cid files ! i) < row_msg_id (thread_rows parse cid files ! j)
          \<and> sort_key_of (thread_msgs parse files ! i) \<le> sort_key_of (thread_msgs parse files ! j)"
    proof (intro allI impI)
      fix i j assume ij: "i < j \<and> j < length (thread_msgs parse files)"
      then have "i < length (thread_msgs parse files)" by simp
      with n ij have "row_msg_id (thread_rows parse cid files ! i) = Suc i"
        "row_msg_id (thread_rows parse cid files ! j) = Suc j"
        by blast+
      with ij thread_msgs_nth_mono [OF d, of i j]
      show "row_msg_id (thread_rows parse cid files ! i) < row_msg_id (thread_rows parse cid files ! j)
          \<and> sort_key_of (thread_msgs parse files ! i) \<le> sort_key_of (thread_msgs parse files ! j)"
        by simp
    qed
    with thread_msgs_chronological [OF d] show "sorted (map sort_key_of (thread_msgs parse files))
      \<and> thread_msgs parse files
          = sort_key (\<lambda>m. the (timestamp m))
              (filter (\<lambda>m. timestamp m \<noteq> None) (thread_concat parse files))
            @ filter (\<lambda>m. timestamp m = None) (thread_concat parse files)
      \<and> (\<forall>i j. i < j \<and> j < length (thread_msgs parse files) \<longrightarrow>
            row_msg_id (thread_rows parse cid files ! i) < row_msg_id (thread_rows parse cid files ! j)
          \<and> sort_key_of (thread_msgs parse files ! i) \<le> sort_key_of (thread_msgs parse files ! j))"
      by (intro conjI)
  qed
  note r = run_rows [of uuid4 thread_key_for_file parse ex html_files]
  note s = sorted_threads_sorted [of thread_key_for_file html_files, THEN conjunct2]
  note i = thread_rows_msg_ids [of parse cid files]
  have i': "map row_msg_id (thread_rows parse cid files) = [1..<Suc (length (thread_rows parse cid files))]"
    by (simp only: i thread_rows_length)
  note l = thread_rows_length [of parse cid files]
  note e = thread_msgs_eq [of parse files]
  from r s i' l n e c show ?thesis
    by (intro conjI)
qed

subsection \<open>The example run\<close>


lemma ex_run_rows:
  "rows (fst (process_directory ex_uuid4 ex_thread_key ex_parse ex_extractor [11, 12, 13])) =
     [ex_row1, ex_row2, ex_row3]"
  by code_simp

lemma ex_extractor_no_rows: "rows ex_extractor = []"
  by (simp add: ex_extractor_def)

lemma ex_saved:
  "snd (process_directory ex_uuid4 ex_thread_key ex_parse ex_extractor [11, 12, 13]) 5 = Some 100"
  "snd (process_directory ex_uuid4 ex_thread_key ex_parse ex_extractor [11, 12, 13]) 7 = Some 101"
  by code_simp+

lemma ex_threads: "sorted_threads ex_thread_key [11, 12, 13] = [(5, [11, 12]), (7, [13])]"
  by code_simp

lemma ex_thread_rows_3: "thread_rows ex_parse (101::nat) [13] = []"
  by code_simp

lemma ex_thread_rows_12: "thread_rows ex_parse (100::nat) [11, 12] = [ex_row1, ex_row2, ex_row3]"
  by code_simp

lemma ex_thread_msgs_12: "thread_msgs ex_parse [11, 12] = [ex_m3, ex_m2, ex_m1]"
  by code_simp

theorem media_only_flag_witness:
  "rows (fst (process_directory ex_uuid4 ex_thread_key ex_parse ex_extractor [11, 12, 13])) =
     rows ex_extractor @ [ex_row1, ex_row2, ex_row3]
   \<and> ex_row2 \<in> set [ex_row1, ex_row2, ex_row3]
   \<and> row_is_media_only ex_row2 = 1
   \<and> row_text ex_row2 = [] \<and> (row_has_image ex_row2 = 1 \<or> row_has_link ex_row2 = 1)"
proof -
  have a: "rows (fst (process_directory ex_uuid4 ex_thread_key ex_parse ex_extractor [11, 12, 13])) =
     rows ex_extractor @ [ex_row1, ex_row2, ex_row3]"
    by (simp add: ex_run_rows ex_extractor_no_rows)
  have b: "ex_row2 \<in> set [ex_row1, ex_row2, ex_row3]"
    by simp
  have c: "row_is_media_only ex_row2 = 1"
    by (simp add: ex_row2_def)
  from media_only_flag [OF a b] a b c show ?thesis
    by blast
qed

lemma ex_concat_12: "thread_concat ex_parse [11, 12] = [ex_m1, ex_m2, ex_m3]"
  by code_simp

lemma ex_customer_12: "fst (collect_thread ex_parse (sort [11, 12]) ([], [])) = ''Jane Doe''"
  by code_simp

theorem msg_ids_contiguous_witness:
  "(\<exists>m\<in>set (thread_concat ex_parse [11, 12]). timestamp m \<noteq> None)
   \<and> thread_concat ex_parse [11, 12] = [ex_m1, ex_m2, ex_m3]
   \<and> thread_msgs ex_parse [11, 12] = [ex_m3, ex_m2, ex_m1]
   \<and> 2 < length (thread_msgs ex_parse [11, 12])
   \<and> row_msg_id (thread_rows ex_parse (100::nat) [11, 12] ! 2) = Suc 2
   \<and> thread_rows ex_parse (100::nat) [11, 12] ! 2 = make_row 100 ''Jane Doe'' (Suc 2, ex_m1)
   \<and> sort_key_of (thread_msgs ex_parse [11, 12] ! 0) \<le> sort_key_of (thread_msgs ex_parse [11, 12] ! 2)
   \<and> row_msg_id (thread_rows ex_parse (100::nat) [11, 12] ! 0)
       < row_msg_id (thread_rows ex_parse (100::nat) [11, 12] ! 2)
   \<and> map row_msg_id (thread_rows ex_parse (100::nat) [11, 12])
       = [1..<Suc (length (thread_rows ex_parse (100::nat) [11, 12]))]"
proof -
  note t = msg_ids_contiguous [of ex_uuid4 ex_thread_key ex_parse ex_extractor "[11, 12, 13]"
      "100::nat" "[11, 12]"]
  have d: "\<exists>m\<in>set (thread_concat ex_parse [11, 12]). timestamp m \<noteq> None"
    unfolding ex_concat_12 by (rule ex_dated)
  from t have "thread_msgs ex_parse [11, 12] =
       (if \<exists>m\<in>set (thread_concat ex_parse [11, 12]). timestamp m \<noteq> None
        then sort_key sort_key_of (thread_concat ex_parse [11, 12])
        else thread_concat ex_parse [11, 12])"
    by blast
  with d have m: "thread_msgs ex_parse [11, 12] = [ex_m3, ex_m2, ex_m1]"
    by (simp only: if_True ex_concat_12 ex_sorted)
  have l: "2 < length (thread_msgs ex_parse [11, 12])"
    by (simp add: m)
  from t have "\<forall>i<length (thread_msgs ex_parse [11, 12]).
         row_msg_id (thread_rows ex_parse (100::nat) [11, 12] ! i) = Suc i
       \<and> row_text (thread_rows ex_parse (100::nat) [11, 12] ! i)
           = strip (msg_text (thread_msgs ex_parse [11, 12] ! i))
       \<and> thread_rows ex_parse (100::nat) [11, 12] ! i
           = make_row 100 (fst (collect_thread ex_parse (sort [11, 12]) ([], [])))
               (Suc i, thread_msgs ex_parse [11, 12] ! i)"
    by blast
  with l have r0: "row_msg_id (thread_rows ex_parse (100::nat) [11, 12] ! 2) = Suc 2"
    and r1: "thread_rows ex_parse (100::nat) [11, 12] ! 2
           = make_row 100 (fst (collect_thread ex_parse (sort [11, 12]) ([], [])))
               (Suc 2, thread_msgs ex_parse [11, 12] ! 2)"
    by blast+
  have n2: "[ex_m3, ex_m2, ex_m1] ! 2 = ex_m1"
    by simp
  have r: "row_msg_id (thread_rows ex_parse (100::nat) [11, 12] ! 2) = Suc 2"
    "thread_rows ex_parse (100::nat) [11, 12] ! 2 = make_row 100 ''Jane Doe'' (Suc 2, ex_m1)"
    using r0 r1 by (simp_all only: ex_customer_12 m n2)
  from t d have "\<forall>i j. i < j \<and> j < length (thread_msgs ex_parse [11, 12]) \<longrightarrow>
            row_msg_id (thread_rows ex_parse (100::nat) [11, 12] ! i)
              < row_msg_id (thread_rows ex_parse (100::nat) [11, 12] ! j)
          \<and> sort_key_of (thread_msgs ex_parse [11, 12] ! i)
              \<le> sort_key_of (thread_msgs ex_parse [11, 12] ! j)"
    by blast
  with l have c: "row_msg_id (thread_rows ex_parse (100::nat) [11, 12] ! 0)
              < row_msg_id (thread_rows ex_parse (100::nat) [11, 12] ! 2)
          \<and> sort_key_of (thread_msgs ex_parse [11, 12] ! 0)
              \<le> sort_key_of (thread_msgs ex_parse [11, 12] ! 2)"
    by simp
  from t have i: "map row_msg_id (thread_rows ex_parse (100::nat) [11, 12])
       = [1..<Suc (length (thread_rows ex_parse (100::nat) [11, 12]))]"
    by blast
  from d ex_concat_12 m l r c i show ?thesis
    by (intro conjI) blast+
qed

subsection \<open>The ID map over a run\<close>


lemma goc_keeps:
  "k' \<in> dom (fst st) \<Longrightarrow> fst (snd (get_or_create_conversation_id u st k)) k' = fst st k'"
  using goc_map_le [of st u k] by (simp add: map_le_def)

lemma goc_counter: "snd st \<le> snd (snd (get_or_create_conversation_id u st k))"
  by (cases "fst st k") (auto simp: goc_present goc_absent)

lemma run_unchanged:
  "fst ` set ths \<subseteq> dom (fst (id_map ex)) \<Longrightarrow>
   id_map (foldl (process_thread u p) ex ths) = id_map ex"
proof (induction ths arbitrary: ex)
  case Nil
  show ?case by simp
next
  case (Cons kf ths)
  from Cons.prems obtain c where "fst (id_map ex) (fst kf) = Some c"
    by auto
  then have e: "id_map (process_thread u p ex kf) = id_map ex"
    by (simp add: process_thread_id_map goc_present)
  with Cons.prems have "fst ` set ths \<subseteq> dom (fst (id_map (process_thread u p ex kf)))"
    by simp
  from Cons.IH [OF this] e show ?case
    by simp
qed

lemma run_new_entry:
  "k \<in> fst ` set ths \<Longrightarrow> fst (id_map ex) k = None \<Longrightarrow>
   \<exists>n\<ge>snd (id_map ex). fst (id_map (foldl (process_thread u p) ex ths)) k = Some (u n)"
proof (induction ths arbitrary: ex)
  case Nil
  then show ?case by simp
next
  case (Cons kf ths)
  let ?ex1 = "process_thread u p ex kf"
  show ?case
  proof (cases "fst kf = k")
    case True
    with Cons.prems(2) have "fst (id_map ?ex1) k = Some (u (snd (id_map ex)))"
      by (simp add: process_thread_id_map goc_absent)
    moreover have "fst (id_map ?ex1) \<subseteq>\<^sub>m fst (id_map (foldl (process_thread u p) ?ex1 ths))"
      by (rule run_map_le)
    ultimately have "fst (id_map (foldl (process_thread u p) ?ex1 ths)) k = Some (u (snd (id_map ex)))"
      by (metis (no_types) domI map_le_def)
    then show ?thesis by auto
  next
    case False
    with Cons.prems(1) have 1: "k \<in> fst ` set ths"
      by auto
    have "k \<notin> dom (fst (id_map ?ex1))"
      using False Cons.prems(2) by (simp add: process_thread_id_map goc_dom domIff)
    then have 2: "fst (id_map ?ex1) k = None"
      by (simp add: domIff)
    from Cons.IH [OF 1 2] obtain n where
      n: "snd (id_map ?ex1) \<le> n" "fst (id_map (foldl (process_thread u p) ?ex1 ths)) k = Some (u n)"
      by blast
    have "snd (id_map ex) \<le> snd (id_map ?ex1)"
      by (simp add: process_thread_id_map goc_counter)
    with n show ?thesis
      by (auto intro: exI [of _ n])
  qed
qed

text \<open>
  Claim C4.  Resolving a key that the ID map binds returns the stored identifier and
  leaves the map as it is; resolving an absent key binds it to a new identifier; in both
  cases every key bound before keeps its value.  Over a run, every key bound before keeps
  its value in the map written at the end, whose keys are the old ones and the thread keys
  of the run; a run whose thread keys are all bound already leaves the map unchanged; and
  the rows of a thread whose key was bound before the run carry the stored identifier.
\<close>

theorem id_map_only_grows:
  "(fst st k = Some cid \<longrightarrow> get_or_create_conversation_id uuid4 st k = (cid, st))
   \<and> (fst st k = None \<longrightarrow>
        get_or_create_conversation_id uuid4 st k
          = (uuid4 (snd st), (fst st)(k \<mapsto> uuid4 (snd st)), Suc (snd st)))
   \<and> (\<forall>k'\<in>dom (fst st). fst (snd (get_or_create_conversation_id uuid4 st k)) k' = fst st k')
   \<and> (\<forall>k'\<in>dom (fst (id_map ex)).
        snd (process_directory uuid4 thread_key_for_file parse ex html_files) k'
          = fst (id_map ex) k')
   \<and> dom (snd (process_directory uuid4 thread_key_for_file parse ex html_files))
        = dom (fst (id_map ex)) \<union> thread_key_for_file ` set html_files
   \<and> (thread_key_for_file ` set html_files \<subseteq> dom (fst (id_map ex)) \<longrightarrow>
        id_map (fst (process_directory uuid4 thread_key_for_file parse ex html_files)) = id_map ex)
   \<and> rows (fst (process_directory uuid4 thread_key_for_file parse ex html_files)) =
       rows ex @ concat (map (\<lambda>kf. thread_rows parse
          (case fst (id_map ex) (fst kf) of
             Some c \<Rightarrow> c
           | None \<Rightarrow> the (snd (process_directory uuid4 thread_key_for_file parse ex html_files) (fst kf)))
          (snd kf))
          (sorted_threads thread_key_for_file html_files))"
proof -
  let ?pd = "process_directory uuid4 thread_key_for_file parse ex html_files"
  have le: "fst (id_map ex) \<subseteq>\<^sub>m snd ?pd"
    unfolding process_directory_snd process_directory_fst by (rule run_map_le)
  then have keep: "\<forall>k'\<in>dom (fst (id_map ex)). snd ?pd k' = fst (id_map ex) k'"
    by (simp add: map_le_def)
  have d: "dom (snd ?pd) = dom (fst (id_map ex)) \<union> thread_key_for_file ` set html_files"
    unfolding process_directory_snd process_directory_fst
    by (simp only: run_dom sorted_threads_keys)
  have un: "thread_key_for_file ` set html_files \<subseteq> dom (fst (id_map ex)) \<longrightarrow>
        id_map (fst ?pd) = id_map ex"
  proof
    assume "thread_key_for_file ` set html_files \<subseteq> dom (fst (id_map ex))"
    then have "fst ` set (sorted_threads thread_key_for_file html_files) \<subseteq> dom (fst (id_map ex))"
      by (simp only: sorted_threads_keys)
    then show "id_map (fst ?pd) = id_map ex"
      unfolding process_directory_fst by (rule run_unchanged)
  qed
  have "(\<lambda>kf. thread_rows parse (the (snd ?pd (fst kf))) (snd kf)) =
        (\<lambda>kf. thread_rows parse
          (case fst (id_map ex) (fst kf) of Some c \<Rightarrow> c | None \<Rightarrow> the (snd ?pd (fst kf))) (snd kf))"
  proof
    fix kf
    show "thread_rows parse (the (snd ?pd (fst kf))) (snd kf) =
          thread_rows parse
            (case fst (id_map ex) (fst kf) of Some c \<Rightarrow> c | None \<Rightarrow> the (snd ?pd (fst kf))) (snd kf)"
      using keep by (cases "fst (id_map ex) (fst kf)") (auto simp: domIff)
  qed
  then have r: "rows (fst ?pd) =
       rows ex @ concat (map (\<lambda>kf. thread_rows parse
          (case fst (id_map ex) (fst kf) of Some c \<Rightarrow> c | None \<Rightarrow> the (snd ?pd (fst kf)))
          (snd kf)) (sorted_threads thread_key_for_file html_files))"
    using run_rows [of uuid4 thread_key_for_file parse ex html_files] by simp
  have g: "\<forall>k'\<in>dom (fst st). fst (snd (get_or_create_conversation_id uuid4 st k)) k' = fst st k'"
    by (simp add: goc_keeps)
  have p: "fst st k = Some cid \<longrightarrow> get_or_create_conversation_id uuid4 st k = (cid, st)"
    by (simp add: goc_present)
  have a: "fst st k = None \<longrightarrow>
        get_or_create_conversation_id uuid4 st k
          = (uuid4 (snd st), (fst st)(k \<mapsto> uuid4 (snd st)), Suc (snd st))"
    by (simp add: goc_absent)
  from p a g keep d un r show ?thesis
    by (intro conjI)
qed



theorem id_map_only_grows_witness:
  "fst ex_id_map 5 = Some 42
   \<and> get_or_create_conversation_id ex_uuid4 ex_id_map 5 = (42, ex_id_map)
   \<and> fst ex_id_map 7 = None
   \<and> fst (get_or_create_conversation_id ex_uuid4 ex_id_map 7) = ex_uuid4 0
   \<and> 5 \<in> dom (fst ex_id_map)
   \<and> fst (snd (get_or_create_conversation_id ex_uuid4 ex_id_map 7)) 5 = Some 42"
proof -
  have a: "fst ex_id_map 5 = Some 42" and b: "fst ex_id_map 7 = None"
    and c: "5 \<in> dom (fst ex_id_map)" and d: "snd ex_id_map = 0"
    by (simp_all add: ex_id_map_def)
  note t5 = id_map_only_grows [of ex_id_map 5 42 ex_uuid4 ex_extractor ex_thread_key ex_parse "[]"]
  note t7 = id_map_only_grows [of ex_id_map 7 42 ex_uuid4 ex_extractor ex_thread_key ex_parse "[]"]
  from t5 a have 1: "get_or_create_conversation_id ex_uuid4 ex_id_map 5 = (42, ex_id_map)"
    by blast
  from t7 b have 2: "get_or_create_conversation_id ex_uuid4 ex_id_map 7
      = (ex_uuid4 (snd ex_id_map), (fst ex_id_map)(7 \<mapsto> ex_uuid4 (snd ex_id_map)), Suc (snd ex_id_map))"
    by blast
  from t7 c have 3: "fst (snd (get_or_create_conversation_id ex_uuid4 ex_id_map 7)) 5 = fst ex_id_map 5"
    by blast
  from a b c 1 2 3 d show ?thesis
    by simp
qed

lemma thread_rows_empty:
  assumes "\<forall>f\<in>set files. doc_msgs parse f = []"
  shows "thread_rows parse cid files = []"
proof -
  have "thread_concat parse files = []"
    using assms by (simp add: thread_concat_def)
  then have "thread_msgs parse files = []"
    by (simp add: thread_msgs_def collect_thread_concat order_msgs_def)
  then show ?thesis
    by (simp add: thread_rows_def)
qed

lemma sorted_threads_member:
  assumes "fp \<in> set html_files"
  shows "\<exists>files. (tk fp, files) \<in> set (sorted_threads tk html_files) \<and> fp \<in> set files"
proof -
  have "tk fp \<in> fst ` set (sorted_threads tk html_files)"
    using assms by (simp add: sorted_threads_keys)
  then obtain files where m: "(tk fp, files) \<in> set (sorted_threads tk html_files)"
    by force
  from sorted_threads_files [OF m] assms have "fp \<in> set files"
    by simp
  with m show ?thesis by blast
qed

text \<open>
  Claim C9.  The identifier of a thread is resolved before its documents are parsed: the
  map written at the end of the run is the in-memory map, binds the thread key of every
  discovered document and is the same whatever the parser does.  A thread key that was
  absent is bound to a newly drawn identifier, also when every document of the thread
  fails to parse or holds no message, in which case the thread contributes no row.
\<close>

theorem id_created_without_rows:
  assumes "fp \<in> set html_files"
  shows "snd (process_directory uuid4 thread_key_for_file parse ex html_files) (thread_key_for_file fp) \<noteq> None
   \<and> snd (process_directory uuid4 thread_key_for_file parse ex html_files)
       = fst (id_map (fst (process_directory uuid4 thread_key_for_file parse ex html_files)))
   \<and> snd (process_directory uuid4 thread_key_for_file parse ex html_files)
       = snd (process_directory uuid4 thread_key_for_file parse' ex html_files)
   \<and> (fst (id_map ex) (thread_key_for_file fp) = None \<longrightarrow>
        (\<exists>n\<ge>snd (id_map ex).
           snd (process_directory uuid4 thread_key_for_file parse ex html_files) (thread_key_for_file fp)
             = Some (uuid4 n)))
   \<and> (\<exists>files. (thread_key_for_file fp, files) \<in> set (sorted_threads thread_key_for_file html_files)
         \<and> fp \<in> set files
         \<and> ((\<forall>f\<in>set files. doc_msgs parse f = []) \<longrightarrow> thread_rows parse cid files = []))"
proof -
  let ?pd = "process_directory uuid4 thread_key_for_file parse ex html_files"
  let ?k = "thread_key_for_file fp"
  have k: "?k \<in> fst ` set (sorted_threads thread_key_for_file html_files)"
    using assms by (simp add: sorted_threads_keys)
  have "?k \<in> dom (snd ?pd)"
    unfolding process_directory_snd process_directory_fst run_dom using k by blast
  then have 1: "snd ?pd ?k \<noteq> None"
    by (simp add: domIff)
  have 2: "snd ?pd = fst (id_map (fst ?pd))"
    by (rule process_directory_snd)
  have 3: "snd ?pd = snd (process_directory uuid4 thread_key_for_file parse' ex html_files)"
    unfolding process_directory_snd process_directory_fst
    by (simp add: run_id_map_indep [of ex ex uuid4 parse _ parse'])
  have 4: "fst (id_map ex) ?k = None \<longrightarrow> (\<exists>n\<ge>snd (id_map ex). snd ?pd ?k = Some (uuid4 n))"
    unfolding process_directory_snd process_directory_fst
    using k by (blast intro: run_new_entry)
  from sorted_threads_member [OF assms] obtain files where
    f: "(?k, files) \<in> set (sorted_threads thread_key_for_file html_files)" "fp \<in> set files"
    by blast
  have "(\<forall>f\<in>set files. doc_msgs parse f = []) \<longrightarrow> thread_rows parse cid files = []"
    by (blast intro: thread_rows_empty)
  with f have 5: "\<exists>files. (?k, files) \<in> set (sorted_threads thread_key_for_file html_files)
         \<and> fp \<in> set files
         \<and> ((\<forall>f\<in>set files. doc_msgs parse f = []) \<longrightarrow> thread_rows parse cid files = [])"
    by blast
  from 1 2 3 4 5 show ?thesis
    by (intro conjI)
qed



theorem id_created_without_rows_witness:
  "(13::nat) \<in> set [11, 12, 13]
   \<and> fst (id_map ex_extractor) (ex_thread_key 13) = None
   \<and> snd (process_directory ex_uuid4 ex_thread_key ex_parse ex_extractor [11, 12, 13])
        (ex_thread_key 13) \<noteq> None
   \<and> snd (process_directory ex_uuid4 ex_thread_key ex_parse ex_extractor [11, 12, 13])
        (ex_thread_key 13) = Some (ex_uuid4 1)
   \<and> doc_msgs ex_parse 13 = []
   \<and> thread_rows ex_parse (101::nat) [13] = []"
proof -
  have h: "(13::nat) \<in> set [11, 12, 13]"
    by simp
  note t = id_created_without_rows [OF h, of ex_uuid4 ex_thread_key ex_parse ex_extractor
      ex_parse "101::nat"]
  have n: "fst (id_map ex_extractor) (ex_thread_key 13) = None"
    by (simp add: ex_extractor_def)
  have d: "doc_msgs ex_parse 13 = []"
    by (simp add: doc_msgs_def ex_parse_def)
  have k: "ex_thread_key 13 = 7" "ex_uuid4 1 = 101"
    by (simp_all add: ex_thread_key_def ex_uuid4_def)
  from t have 1: "snd (process_directory ex_uuid4 ex_thread_key ex_parse ex_extractor [11, 12, 13])
        (ex_thread_key 13) \<noteq> None"
    by blast
  have 2: "snd (process_directory ex_uuid4 ex_thread_key ex_parse ex_extractor [11, 12, 13])
        (ex_thread_key 13) = Some (ex_uuid4 1)"
    by (simp only: k ex_saved)
  from h n 1 2 d ex_thread_rows_3 show ?thesis
    by (intro conjI)
qed


subsection \<open>Dataset writer\<close>


text \<open>
  Claim C10.  With no accumulated rows \<^verbatim>\<open>save_to_csv\<close> returns normally after printing its
  diagnostic and leaves directories and files exactly as they were: neither the output
  file nor its parent directory is created.
\<close>

theorem save_to_csv_no_rows:
  assumes "rows self = []"
  shows "\<exists>w'. save_to_csv self output_path w = Inr w'
           \<and> world_dirs w' = world_dirs w \<and> world_files w' = world_files w
           \<and> world_stdout w' = world_stdout w @ [NoMessagesToSave]"
  using assms by (simp add: save_to_csv_def)

text \<open>With a row to write, the parent directory and the file do appear.\<close>

lemma ex_save_rows:
  "\<exists>w'. save_to_csv ex_extractor_rows [''data'', ''out.csv''] ex_world = Inr w'
     \<and> [''data''] \<in> world_dirs w'
     \<and> world_files w' [''data'', ''out.csv''] = Some (fieldnames, [ex_row1])"
  by (simp add: save_to_csv_def ex_extractor_rows_def ex_world_def mkdir_parents_def
        open_write_def)

theorem save_to_csv_no_rows_witness:
  "rows ex_extractor = []
   \<and> (\<exists>w'. save_to_csv ex_extractor [''data'', ''out.csv''] ex_world = Inr w'
         \<and> world_dirs w' = world_dirs ex_world \<and> world_files w' = world_files ex_world
         \<and> world_stdout w' = world_stdout ex_world @ [NoMessagesToSave])
   \<and> [''data''] \<notin> world_dirs ex_world
   \<and> world_files ex_world [''data'', ''out.csv''] = None"
proof -
  have r: "rows ex_extractor = []"
    by (simp add: ex_extractor_def)
  have f: "[''data''] \<notin> world_dirs ex_world" "world_files ex_world [''data'', ''out.csv''] = None"
    by (simp_all add: ex_world_def)
  from save_to_csv_no_rows [OF r, of "[''data'', ''out.csv'']" ex_world] r f show ?thesis
    by (intro conjI)
qed

subsection \<open>Message text\<close>


declare sub_newlines.simps [simp del]

lemma sub_newlines_Nil: "sub_newlines [] = []"
  by (simp add: sub_newlines.simps)

lemma sub_newlines_other: "c \<noteq> nl \<Longrightarrow> sub_newlines (c # cs) = c # sub_newlines cs"
  by (subst sub_newlines.simps) simp

lemma takeWhile_nl_run:
  "post = [] \<or> hd post \<noteq> nl \<Longrightarrow>
   takeWhile (\<lambda>x. x = nl) (replicate n nl @ post) = replicate n nl"
  by (induction n) (auto simp: takeWhile_eq_Nil_iff)

lemma dropWhile_nl_run:
  "post = [] \<or> hd post \<noteq> nl \<Longrightarrow>
   dropWhile (\<lambda>x. x = nl) (replicate n nl @ post) = post"
  by (induction n) (auto simp: dropWhile_eq_self_iff)

lemma sub_newlines_run:
  assumes "post = [] \<or> hd post \<noteq> nl"
  shows "sub_newlines (replicate n nl @ post) =
           (if 3 \<le> n then [nl, nl] else replicate n nl) @ sub_newlines post"
proof (cases n)
  case 0
  then show ?thesis by simp
next
  case (Suc m)
  have t: "takeWhile (\<lambda>x. x = nl) (replicate n nl @ post) = replicate n nl"
    using assms by (rule takeWhile_nl_run)
  have d: "dropWhile (\<lambda>x. x = nl) (replicate m nl @ post) = post"
    using assms by (rule dropWhile_nl_run)
  have "sub_newlines (nl # replicate m nl @ post) =
          (if 3 \<le> n then [nl, nl] else replicate n nl) @ sub_newlines post"
    using t d Suc by (subst sub_newlines.simps) (simp add: Let_def)
  then show ?thesis using Suc by simp
qed

lemma sub_newlines_append:
  "pre = [] \<or> last pre \<noteq> nl \<Longrightarrow> sub_newlines (pre @ rest) = sub_newlines pre @ sub_newlines rest"
proof (induction pre rule: sub_newlines.induct)
  case (1 s)
  show ?case
  proof (cases s)
    case Nil
    then show ?thesis by (simp add: sub_newlines_Nil)
  next
    case (Cons c cs)
    show ?thesis
    proof (cases "c = nl")
      case False
      have "cs = [] \<or> last cs \<noteq> nl"
        using "1.prems" Cons by (auto split: if_splits)
      with "1.IH"(2) [OF Cons False] have "sub_newlines (cs @ rest) = sub_newlines cs @ sub_newlines rest"
        by simp
      with False Cons show ?thesis by (simp add: sub_newlines_other)
    next
      case True
      let ?run = "takeWhile (\<lambda>x. x = nl) s"
      let ?d = "dropWhile (\<lambda>x. x = nl) cs"
      have s: "s = ?run @ ?d"
        using Cons True by simp
      have last: "last s \<noteq> nl"
        using "1.prems" Cons by simp
      have dne: "?d \<noteq> []"
      proof
        assume "?d = []"
        then have "\<forall>x\<in>set cs. x = nl" by (simp add: dropWhile_eq_Nil_conv)
        with True Cons have "\<forall>x\<in>set s. x = nl" by simp
        moreover have "last s \<in> set s" using Cons by simp
        ultimately show False using last by blast
      qed
      then have hd: "hd ?d \<noteq> nl"
        using hd_dropWhile by blast
      have lastd: "?d = [] \<or> last ?d \<noteq> nl"
        using dne last s by (metis last_appendR)
      obtain n where run: "?run = replicate n nl"
        by (metis (mono_tags, lifting) replicate_length_same set_takeWhileD)
      have IH: "sub_newlines (?d @ rest) = sub_newlines ?d @ sub_newlines rest"
        using "1.IH"(1) [OF Cons True refl] lastd by simp
      have a: "sub_newlines (s @ rest) =
                (if 3 \<le> n then [nl, nl] else replicate n nl) @ sub_newlines (?d @ rest)"
      proof -
        have "s @ rest = replicate n nl @ (?d @ rest)"
          using s run by (metis append_assoc)
        moreover have "?d @ rest = [] \<or> hd (?d @ rest) \<noteq> nl"
          using dne hd by simp
        ultimately show ?thesis
          by (simp only: sub_newlines_run)
      qed
      have b: "sub_newlines s = (if 3 \<le> n then [nl, nl] else replicate n nl) @ sub_newlines ?d"
      proof -
        have "s = replicate n nl @ ?d"
          using s run by metis
        moreover have "?d = [] \<or> hd ?d \<noteq> nl"
          using hd by simp
        ultimately show ?thesis
          by (metis sub_newlines_run)
      qed
      show ?thesis
        unfolding a b IH by simp
    qed
  qed
qed

lemma lines_of_ne: "lines_of s \<noteq> []"
  by (induction s) auto

lemma lines_of_append_nl: "lines_of (a @ nl # b) = lines_of a @ lines_of b"
  by (induction a) (auto simp: lines_of_ne)

lemma lines_of_run: "lines_of (replicate k nl @ b) = replicate k [] @ lines_of b"
  by (induction k) auto

lemma lines_of_blank_run:
  "lines_of (a @ replicate (Suc k) nl @ b) = lines_of a @ replicate k [] @ lines_of b"
  by (simp add: lines_of_append_nl lines_of_run)

lemma strip_trimmed:
  "strip s = [] \<or> (\<not> is_space (hd (strip s)) \<and> \<not> is_space (last (strip s)))"
proof (cases "dropWhile is_space s")
  case Nil
  have "strip s = []"
    by (simp only: strip_def Nil rev.simps dropWhile.simps)
  then show ?thesis ..
next
  case (Cons x xs)
  then have "\<not> is_space (hd (dropWhile is_space s))"
    using hd_dropWhile [of is_space s] by simp
  with Cons have nx: "\<not> is_space x" by simp
  have "dropWhile is_space (rev xs @ [x]) = dropWhile is_space (rev xs) @ [x]"
    using nx by (simp add: dropWhile_append)
  then have e: "strip s = x # rev (dropWhile is_space (rev xs))"
    using Cons by (simp add: strip_def)
  let ?r = "dropWhile is_space (rev xs)"
  have "\<not> is_space (last (x # rev ?r))"
  proof (cases "?r")
    case Nil
    then show ?thesis using nx by simp
  next
    case (Cons y ys)
    then have "\<not> is_space (hd ?r)"
      using hd_dropWhile [of is_space "rev xs"] by simp
    then show ?thesis using Cons by simp
  qed
  with e nx show ?thesis by simp
qed



text \<open>
  Claim C8, as amended.  A maximal run of three or more newline characters (two or more
  consecutive blank lines) is replaced by exactly two newline characters (one blank
  line), a run of one or two newline characters (at most one blank line) is copied
  unchanged, and the result is trimmed: it is empty or neither starts nor ends with
  whitespace.  A run of \<open>k + 1\<close> newline characters is what separates two pieces of text by
  \<open>k\<close> blank lines.
\<close>

theorem clean_text_collapse:
  "((pre = [] \<or> last pre \<noteq> nl) \<and> (post = [] \<or> hd post \<noteq> nl) \<longrightarrow>
      sub_newlines (pre @ replicate n nl @ post) =
        sub_newlines pre @ (if 3 \<le> n then [nl, nl] else replicate n nl) @ sub_newlines post)
   \<and> lines_of (a @ replicate (Suc k) nl @ b) = lines_of a @ replicate k [] @ lines_of b
   \<and> clean_text raw = strip (sub_newlines raw)
   \<and> (clean_text raw = [] \<or>
        (\<not> is_space (hd (clean_text raw)) \<and> \<not> is_space (last (clean_text raw))))"
proof -
  have 1: "(pre = [] \<or> last pre \<noteq> nl) \<and> (post = [] \<or> hd post \<noteq> nl) \<longrightarrow>
      sub_newlines (pre @ replicate n nl @ post) =
        sub_newlines pre @ (if 3 \<le> n then [nl, nl] else replicate n nl) @ sub_newlines post"
  proof
    assume h: "(pre = [] \<or> last pre \<noteq> nl) \<and> (post = [] \<or> hd post \<noteq> nl)"
    then have "sub_newlines (pre @ replicate n nl @ post) =
                 sub_newlines pre @ sub_newlines (replicate n nl @ post)"
      by (intro sub_newlines_append) blast
    also have "sub_newlines (replicate n nl @ post) =
                 (if 3 \<le> n then [nl, nl] else replicate n nl) @ sub_newlines post"
      using h by (intro sub_newlines_run) blast
    finally show "sub_newlines (pre @ replicate n nl @ post) =
        sub_newlines pre @ (if 3 \<le> n then [nl, nl] else replicate n nl) @ sub_newlines post" .
  qed
  have 2: "lines_of (a @ replicate (Suc k) nl @ b) = lines_of a @ replicate k [] @ lines_of b"
    by (rule lines_of_blank_run)
  have 3: "clean_text raw = strip (sub_newlines raw)"
    by (rule clean_text_def)
  have 4: "clean_text raw = [] \<or>
        (\<not> is_space (hd (clean_text raw)) \<and> \<not> is_space (last (clean_text raw)))"
    unfolding clean_text_def by (rule strip_trimmed)
  from 1 2 3 4 show ?thesis
    by (intro conjI)
qed

lemma ex_sub_a: "sub_newlines ''a'' = ''a''" and ex_sub_b: "sub_newlines ''b'' = ''b''"
  by code_simp+

lemma ex_nl: "last ''a'' \<noteq> nl" "hd ''b'' \<noteq> nl"
  by (simp_all add: nl_def)

theorem clean_text_collapse_witness:
  "last ''a'' \<noteq> nl \<and> hd ''b'' \<noteq> nl
   \<and> sub_newlines (''a'' @ replicate 3 nl @ ''b'') = ''a'' @ [nl, nl] @ ''b''
   \<and> sub_newlines (''a'' @ replicate 2 nl @ ''b'') = ''a'' @ replicate 2 nl @ ''b''"
proof -
  note t3 = clean_text_collapse [of "''a''" "''b''" 3 "[]" 0 "[]" "[]"]
  note t2 = clean_text_collapse [of "''a''" "''b''" 2 "[]" 0 "[]" "[]"]
  from t3 ex_nl have a3: "sub_newlines (''a'' @ replicate 3 nl @ ''b'') =
        sub_newlines ''a'' @ (if (3::nat) \<le> 3 then [nl, nl] else replicate 3 nl) @ sub_newlines ''b''"
    by blast
  from t2 ex_nl have a2: "sub_newlines (''a'' @ replicate 2 nl @ ''b'') =
        sub_newlines ''a'' @ (if (3::nat) \<le> 2 then [nl, nl] else replicate 2 nl) @ sub_newlines ''b''"
    by blast
  from a3 have b3: "sub_newlines (''a'' @ replicate 3 nl @ ''b'') = ''a'' @ [nl, nl] @ ''b''"
    by (simp only: ex_sub_a ex_sub_b) simp
  from a2 have b2: "sub_newlines (''a'' @ replicate 2 nl @ ''b'') = ''a'' @ replicate 2 nl @ ''b''"
    by (simp only: ex_sub_a ex_sub_b) simp
  from ex_nl b3 b2 show ?thesis
    by (intro conjI)
qed

lemma ex_two_blank_lines:
  "lines_of (''a'' @ [nl, nl, nl] @ ''b'') = [''a'', [], [], ''b'']"
  by code_simp

lemma ex_clean_two_blank_lines:
  "clean_text (''a'' @ [nl, nl, nl] @ ''b'') = ''a'' @ [nl, nl] @ ''b''"
  by code_simp

lemma ex_one_blank_line:
  "lines_of (''a'' @ [nl, nl] @ ''b'') = [''a'', [], ''b'']"
  by code_simp

text \<open>
  Two lines of text with exactly two blank lines between them, that is, with three
  newline characters: the run is not left unchanged, the message text keeps one blank
  line, that is, two newline characters.
\<close>

theorem two_blank_lines_counterexample:
  "lines_of (''a'' @ [nl, nl, nl] @ ''b'') = [''a'', [], [], ''b'']
   \<and> clean_text (''a'' @ [nl, nl, nl] @ ''b'') = ''a'' @ [nl, nl] @ ''b''
   \<and> lines_of (clean_text (''a'' @ [nl, nl, nl] @ ''b'')) = [''a'', [], ''b'']
   \<and> clean_text (''a'' @ [nl, nl, nl] @ ''b'') \<noteq> ''a'' @ [nl, nl, nl] @ ''b''"
  by (simp only: ex_two_blank_lines ex_clean_two_blank_lines ex_one_blank_line) simp

subsection \<open>Timestamp normalisation\<close>


lemma of_char_dch: "n < 10 \<Longrightarrow> (of_char (dch n) :: nat) = 48 + n"
  by (simp add: dch_def)

lemma digit_val_dch: "n < 10 \<Longrightarrow> digit_val (dch n) = Some n"
  by (simp add: digit_val_def of_char_dch)

lemma dch_not_space: "n < 10 \<Longrightarrow> \<not> is_space (dch n)"
  by (simp add: is_space_def of_char_dch)

lemma lower_char_dch: "n < 10 \<Longrightarrow> lower_char (dch n) = dch n"
  by (simp add: lower_char_def of_char_dch)

lemma dch_neq_aux: "n < 10 \<Longrightarrow> (of_char c :: nat) < 48 \<or> 57 < (of_char c :: nat) \<Longrightarrow> dch n \<noteq> c"
  using of_char_dch [of n] by auto

lemma dch_neq:
  assumes "n < 10"
  shows "dch n \<noteq> CHR '',''" "dch n \<noteq> CHR '':''" "dch n \<noteq> CHR '' ''"
    "dch n \<noteq> CHR ''a''" "dch n \<noteq> CHR ''p''"
  by (rule dch_neq_aux [OF assms], simp)+

lemma punct_facts:
  "\<not> is_space CHR '',''" "\<not> is_space CHR '':''" "is_space CHR '' ''"
  "digit_val CHR '','' = None" "digit_val CHR '':'' = None" "digit_val CHR '' '' = None"
  by (simp_all add: is_space_def digit_val_def)

lemma two_digits_dch:
  "a < 10 \<Longrightarrow> b < 10 \<Longrightarrow>
   two_digits P Q (dch a # dch b # r) = (if P a \<and> Q b then [(10 * a + b, r)] else [])"
  by (simp add: two_digits_def digit_val_dch)

lemma two_digits_short:
  "a < 10 \<Longrightarrow> digit_val c = None \<Longrightarrow> two_digits P Q (dch a # c # r) = []"
  "digit_val c = None \<Longrightarrow> two_digits P Q (c # r) = []"
  by (cases r; simp add: two_digits_def digit_val_dch)+

lemma one_digit_dch:
  "a < 10 \<Longrightarrow> one_digit P (dch a # r) = (if P a then [(a, r)] else [])"
  by (simp add: one_digit_def digit_val_dch)

lemma one_digit_none: "digit_val c = None \<Longrightarrow> one_digit P (c # r) = []"
  by (simp add: one_digit_def)

lemma rx_lit_simps:
  "rx_lit c (c # r) = [r]" "x \<noteq> c \<Longrightarrow> rx_lit c (x # r) = []" "rx_lit c [] = []"
  by (simp_all add: rx_lit_def)

lemma rx_ws_single: "\<not> is_space c \<Longrightarrow> rx_ws (CHR '' '' # c # r) = [c # r]"
  by (simp add: rx_ws_def punct_facts)

lemma rx_ws_none: "\<not> is_space c \<Longrightarrow> rx_ws (c # r) = []"
  by (simp add: rx_ws_def)


lemma digits_of:
  assumes "(n::nat) < 100"
  shows "n div 10 < 10" "n mod 10 < 10" "10 * (n div 10) + n mod 10 = n"
  using assms by auto

lemma rx_month_three:
  "length w = 3 \<Longrightarrow>
   rx_month (w @ r) = (case index_of a_month (lower w) of Some i \<Rightarrow> [(Suc i, r)] | None \<Rightarrow> [])"
proof -
  assume "length w = 3"
  then obtain a b c where "w = [a, b, c]"
    by (auto simp: length_Suc_conv numeral_3_eq_3)
  then show ?thesis
    by (simp add: rx_month_def)
qed

lemma month_ok_all:
  "month_ok 1" "month_ok 2" "month_ok 3" "month_ok 4" "month_ok 5" "month_ok 6"
  "month_ok 7" "month_ok 8" "month_ok 9" "month_ok 10" "month_ok 11" "month_ok 12"
  by code_simp+

lemma month_ok_range: "1 \<le> m \<Longrightarrow> m \<le> 12 \<Longrightarrow> month_ok m"
proof -
  assume "1 \<le> m" "m \<le> 12"
  then have "m = 1 \<or> m = 2 \<or> m = 3 \<or> m = 4 \<or> m = 5 \<or> m = 6 \<or> m = 7 \<or> m = 8 \<or> m = 9
      \<or> m = 10 \<or> m = 11 \<or> m = 12"
    by arith
  then show ?thesis
    using month_ok_all by blast
qed

lemma rx_month_abbr: "1 \<le> m \<Longrightarrow> m \<le> 12 \<Longrightarrow> rx_month (month_abbr m @ r) = [(m, r)]"
  using month_ok_range [of m] by (simp add: month_ok_def rx_month_three)



lemma field_text_cases:
  "(n < 10 \<and> field_text pad n = [dch n]) \<or> field_text pad n = [dch (n div 10), dch (n mod 10)]"
  unfolding field_text_def digits2_def by (cases "pad \<or> 10 \<le> n") auto

lemma stage_day_two:
  fixes K :: "nat \<Rightarrow> string \<Rightarrow> 'a list"
  assumes "a < 10" "b < 10" "1 \<le> 10 * a + b" "10 * a + b \<le> 31"
  shows "concat (map (\<lambda>(v, r3). concat (map (K v) (rx_lit CHR '','' r3)))
           (rx_day (dch a # dch b # CHR '','' # r))) = K (10 * a + b) r"
proof -
  have "a \<le> 3" "a = 3 \<longrightarrow> b \<le> 1" "a = 0 \<longrightarrow> 1 \<le> b"
    using assms by presburger+
  then show ?thesis
    using assms(1,2)
    by (auto simp: rx_day_def two_digits_dch one_digit_dch rx_lit_simps dch_neq)
qed

lemma stage_day:
  fixes K :: "nat \<Rightarrow> string \<Rightarrow> 'a list"
  assumes "1 \<le> d" "d \<le> 31"
  shows "concat (map (\<lambda>(v, r3). concat (map (K v) (rx_lit CHR '','' r3)))
           (rx_day (field_text pad d @ CHR '','' # r))) = K d r"
  using field_text_cases [of d pad]
proof (elim disjE conjE)
  assume one: "d < 10" "field_text pad d = [dch d]"
  then show ?thesis
    using assms
    by (simp add: rx_day_def two_digits_short one_digit_dch punct_facts rx_lit_simps dch_neq)
next
  assume two: "field_text pad d = [dch (d div 10), dch (d mod 10)]"
  have d: "d < 100" using assms by simp
  have "1 \<le> 10 * (d div 10) + d mod 10" "10 * (d div 10) + d mod 10 \<le> 31"
    using assms by simp_all
  from stage_day_two [OF digits_of(1,2) [OF d] this, of K r] show ?thesis
    by (simp add: two)
qed

lemma stage_hour_two:
  fixes K :: "nat \<Rightarrow> string \<Rightarrow> 'a list"
  assumes "a < 10" "b < 10" "1 \<le> 10 * a + b" "10 * a + b \<le> 12"
  shows "concat (map (\<lambda>(v, r3). concat (map (K v) (rx_lit CHR '':'' r3)))
           (rx_hour (dch a # dch b # CHR '':'' # r))) = K (10 * a + b) r"
proof -
  have "a \<le> 1" "a = 1 \<longrightarrow> b \<le> 2" "a = 0 \<longrightarrow> 1 \<le> b"
    using assms by presburger+
  then show ?thesis
    using assms(1,2)
    by (auto simp: rx_hour_def two_digits_dch one_digit_dch rx_lit_simps dch_neq)
qed

lemma stage_hour:
  fixes K :: "nat \<Rightarrow> string \<Rightarrow> 'a list"
  assumes "1 \<le> h" "h \<le> 12"
  shows "concat (map (\<lambda>(v, r3). concat (map (K v) (rx_lit CHR '':'' r3)))
           (rx_hour (field_text pad h @ CHR '':'' # r))) = K h r"
  using field_text_cases [of h pad]
proof (elim disjE conjE)
  assume one: "h < 10" "field_text pad h = [dch h]"
  then show ?thesis
    using assms
    by (simp add: rx_hour_def two_digits_short one_digit_dch punct_facts rx_lit_simps dch_neq)
next
  assume two: "field_text pad h = [dch (h div 10), dch (h mod 10)]"
  have d: "h < 100" using assms by simp
  have "1 \<le> 10 * (h div 10) + h mod 10" "10 * (h div 10) + h mod 10 \<le> 12"
    using assms by simp_all
  from stage_hour_two [OF digits_of(1,2) [OF d] this, of K r] show ?thesis
    by (simp add: two)
qed

lemma stage_minute:
  fixes K :: "nat \<Rightarrow> string \<Rightarrow> 'a list"
  assumes "mi \<le> 59"
  shows "concat (map (\<lambda>(v, r3). concat (map (K v) (rx_lit CHR '':'' r3)))
           (rx_minute (digits2 mi @ CHR '':'' # r))) = K mi r"
proof -
  have d: "mi < 100" using assms by simp
  let ?a = "mi div 10" and ?b = "mi mod 10"
  have ab: "?a < 10" "?b < 10" "10 * ?a + ?b = mi"
    using digits_of [OF d] by auto
  have a5: "?a \<le> 5" using assms by simp
  show ?thesis
    using ab a5
    by (simp add: digits2_def rx_minute_def two_digits_dch one_digit_dch rx_lit_simps dch_neq)
qed

lemma stage_second:
  fixes K :: "nat \<Rightarrow> string \<Rightarrow> 'a list"
  assumes "se \<le> 59" "\<not> is_space c"
  shows "concat (map (\<lambda>(v, r3). concat (map (K v) (rx_ws r3)))
           (rx_second (digits2 se @ CHR '' '' # c # r))) = K se (c # r)"
proof -
  have d: "se < 100" using assms by simp
  let ?a = "se div 10" and ?b = "se mod 10"
  have ab: "?a < 10" "?b < 10" "10 * ?a + ?b = se"
    using digits_of [OF d] by auto
  have a5: "?a \<le> 5" using assms by simp
  show ?thesis
    using ab a5 assms(2)
    by (simp add: digits2_def rx_second_def two_digits_dch one_digit_dch rx_ws_single
          rx_ws_none dch_not_space)
qed

lemma rx_year_digits4: "y \<le> 9999 \<Longrightarrow> rx_year (digits4 y @ r) = [(y, r)]"
proof -
  assume y: "y \<le> 9999"
  have hi: "y div 100 < 100" and lo: "y mod 100 < 100"
    using y by auto
  have "100 * (10 * (y div 100 div 10) + y div 100 mod 10) + (10 * (y mod 100 div 10) + y mod 100 mod 10) = y"
    using digits_of(3) [OF hi] digits_of(3) [OF lo] by simp
  then show ?thesis
    using digits_of(1,2) [OF hi] digits_of(1,2) [OF lo]
    by (simp add: rx_year_def digits4_def digits2_def two_digits_dch)
qed

lemma rx_ampm_upper: "rx_ampm ''AM'' = [(False, [])]" "rx_ampm ''PM'' = [(True, [])]"
  by code_simp+


lemma field_text_not_space:
  "n < 100 \<Longrightarrow> \<exists>c cs. field_text pad n = c # cs \<and> \<not> is_space c"
  using field_text_cases [of n pad] digits_of(1) [of n] by (auto simp: dch_not_space)

lemma rx_ws_field:
  "n < 100 \<Longrightarrow> rx_ws (CHR '' '' # field_text pad n @ r) = [field_text pad n @ r]"
  using field_text_not_space [of n pad] by (auto simp: rx_ws_single)

lemma rx_ws_digits4:
  "y \<le> 9999 \<Longrightarrow> rx_ws (CHR '' '' # digits4 y @ r) = [digits4 y @ r]"
proof -
  assume "y \<le> 9999"
  then have "y div 100 < 100" by simp
  from digits_of(1) [OF this] show ?thesis
    by (simp add: digits4_def digits2_def rx_ws_single dch_not_space)
qed

lemma not_space_AP: "\<not> is_space CHR ''A''" "\<not> is_space CHR ''P''"
  by (simp_all add: is_space_def)

lemma format_regex_normal:
  assumes "1 \<le> m" "m \<le> 12" "1 \<le> d" "d \<le> 31" "y \<le> 9999" "1 \<le> h" "h \<le> 12"
    "mi \<le> 59" "se \<le> 59"
  shows "format_regex
           (month_abbr m @ CHR '' '' # field_text pd d @ CHR '','' # CHR '' '' # digits4 y
              @ CHR '' '' # field_text ph h @ CHR '':'' # digits2 mi @ CHR '':'' # digits2 se
              @ CHR '' '' # (if p then ''PM'' else ''AM''))
         = [((m, d, y, h, mi, se, p), [])]"
proof -
  have dh: "d < 100" "h < 100" using assms by simp_all
  show ?thesis
    unfolding format_regex_def
    using assms dh
    by (cases p)
       (simp_all add: rx_month_abbr rx_ws_field rx_ws_digits4 stage_day stage_hour stage_minute
          stage_second rx_year_digits4 rx_ampm_upper not_space_AP)
qed


lemma dropWhile_space_append:
  "list_all is_space a \<Longrightarrow> dropWhile is_space (a @ r) = dropWhile is_space r"
  by (induction a) auto

lemma strip_outer:
  assumes "list_all is_space a" "list_all is_space b" "x \<noteq> []"
    "\<not> is_space (hd x)" "\<not> is_space (last x)"
  shows "strip (a @ x @ b) = x"
proof -
  have 1: "dropWhile is_space (a @ x @ b) = x @ b"
    using assms(1,3,4) by (cases x) (simp_all add: dropWhile_space_append)
  have "dropWhile is_space (rev b @ rev x) = dropWhile is_space (rev x)"
    using assms(2) by (intro dropWhile_space_append) (simp add: list_all_iff)
  also have "\<dots> = rev x"
    using assms(3,5) by (cases "rev x") (auto simp: last_rev [symmetric] hd_rev)
  finally show ?thesis
    by (simp add: strip_def 1)
qed

declare split_ws.simps [simp del]

lemma split_ws_Nil: "split_ws [] = []"
  by (simp add: split_ws.simps)

lemma split_ws_space: "list_all is_space sp \<Longrightarrow> split_ws (sp @ r) = split_ws r"
  by (subst split_ws.simps, subst (2) split_ws.simps) (simp add: dropWhile_space_append)

lemma takeWhile_word:
  "list_all (\<lambda>c. \<not> is_space c) w \<Longrightarrow> r = [] \<or> is_space (hd r) \<Longrightarrow>
   takeWhile (\<lambda>x. \<not> is_space x) (w @ r) = w"
  by (induction w) (auto simp: takeWhile_eq_Nil_iff)

lemma dropWhile_word:
  "list_all (\<lambda>c. \<not> is_space c) w \<Longrightarrow> r = [] \<or> is_space (hd r) \<Longrightarrow>
   dropWhile (\<lambda>x. \<not> is_space x) (w @ r) = r"
  by (induction w) (auto simp: dropWhile_eq_self_iff)

lemma split_ws_word:
  assumes "w \<noteq> []" "list_all (\<lambda>c. \<not> is_space c) w" "r = [] \<or> is_space (hd r)"
  shows "split_ws (w @ r) = w # split_ws r"
proof -
  obtain c w' where w: "w = c # w'" using assms(1) by (cases w) auto
  then have c: "\<not> is_space c" and w': "list_all (\<lambda>c. \<not> is_space c) w'"
    using assms(2) by simp_all
  have d: "dropWhile is_space (w @ r) = c # (w' @ r)"
    using w c by simp
  have t: "takeWhile (\<lambda>x. \<not> is_space x) (c # (w' @ r)) = w"
    using takeWhile_word [OF assms(2,3)] w by simp
  have e: "dropWhile (\<lambda>x. \<not> is_space x) (w' @ r) = r"
    using dropWhile_word [OF w' assms(3)] .
  show ?thesis
    by (subst split_ws.simps) (simp only: d t e list.case)
qed

lemma split_ws_word_space:
  assumes "w \<noteq> []" "list_all (\<lambda>c. \<not> is_space c) w" "sp \<noteq> []" "list_all is_space sp"
  shows "split_ws (w @ sp @ r) = w # split_ws r"
proof -
  have "sp @ r = [] \<or> is_space (hd (sp @ r))"
    using assms(3,4) by (cases sp) auto
  from split_ws_word [OF assms(1,2) this] show ?thesis
    by (simp add: split_ws_space [OF assms(4)])
qed

lemma split_ws_last:
  assumes "w \<noteq> []" "list_all (\<lambda>c. \<not> is_space c) w"
  shows "split_ws w = [w]"
  using split_ws_word [OF assms, of "[]"] by (simp add: split_ws_Nil)

lemma match_ampm_nospace: "\<not> is_space c \<Longrightarrow> match_ampm (c # r) = None"
  by (simp add: match_ampm_def)

lemma sub_ampm_word:
  "list_all (\<lambda>c. \<not> is_space c) w \<Longrightarrow> sub_ampm (w @ r) = w @ sub_ampm r"
  by (induction w) (simp_all add: match_ampm_nospace)

lemma match_ampm_digit:
  assumes "a < 10"
  shows "match_ampm (CHR '' '' # dch a # r) = None"
proof -
  have "takeWhile is_space (CHR '' '' # dch a # r) = [CHR '' '']"
    "dropWhile is_space (CHR '' '' # dch a # r) = dch a # r"
    using assms by (simp_all add: punct_facts dch_not_space)
  then show ?thesis
    using assms
    by (cases r) (simp_all add: match_ampm_def lower_char_dch dch_neq)
qed

lemma sub_ampm_digit_word:
  assumes "a < 10" "list_all (\<lambda>c. \<not> is_space c) w"
  shows "sub_ampm (CHR '' '' # dch a # w @ r) = CHR '' '' # dch a # w @ sub_ampm r"
proof -
  have "sub_ampm (CHR '' '' # dch a # w @ r) = CHR '' '' # sub_ampm ((dch a # w) @ r)"
    using match_ampm_digit [OF assms(1), of "w @ r"] by simp
  also have "sub_ampm ((dch a # w) @ r) = (dch a # w) @ sub_ampm r"
    using assms by (intro sub_ampm_word) (simp add: dch_not_space)
  finally show ?thesis by simp
qed

lemma marker_ok_all:
  "marker_ok ''am''" "marker_ok ''Am''" "marker_ok ''aM''" "marker_ok ''AM''"
  "marker_ok ''pm''" "marker_ok ''Pm''" "marker_ok ''pM''" "marker_ok ''PM''"
  by code_simp+

lemma marker_ok_member:
  "k \<in> set am_markers \<or> k \<in> set pm_markers \<Longrightarrow> marker_ok k"
  using marker_ok_all by (auto simp: am_markers_def pm_markers_def)


lemma dword_word: "dword w \<Longrightarrow> w \<noteq> [] \<and> list_all (\<lambda>c. \<not> is_space c) w"
  by (auto simp: dword_def dch_not_space)

lemma sub_ampm_dword: "dword w \<Longrightarrow> sub_ampm (CHR '' '' # w @ r) = CHR '' '' # w @ sub_ampm r"
proof -
  assume "dword w"
  then obtain a w' where a: "a < 10" "list_all (\<lambda>c. \<not> is_space c) w'" and w: "w = dch a # w'"
    unfolding dword_def by blast
  from sub_ampm_digit_word [OF a, of r] show ?thesis
    by (simp only: w append_Cons)
qed

lemma digits2_nospace: "n < 100 \<Longrightarrow> list_all (\<lambda>c. \<not> is_space c) (digits2 n)"
  using digits_of(1,2) [of n] by (simp add: digits2_def dch_not_space)

lemma field_text_dword:
  assumes "n < 100" "list_all (\<lambda>c. \<not> is_space c) r"
  shows "dword (field_text pad n @ r)"
  using field_text_cases [of n pad] digits_of(1,2) [OF assms(1)] assms(2)
  by (auto simp: dword_def dch_not_space)

lemma digits4_dword: "y \<le> 9999 \<Longrightarrow> dword (digits4 y)"
proof -
  assume "y \<le> 9999"
  then have "y div 100 < 100" "y mod 100 < 100" by simp_all
  then have a: "y div 100 div 10 < 10"
    and r: "list_all (\<lambda>c. \<not> is_space c) (dch (y div 100 mod 10) # digits2 (y mod 100))"
    using digits_of(1,2) [of "y div 100"] digits_of(1,2) [of "y mod 100"]
    by (simp_all add: digits2_def dch_not_space)
  have "digits4 y = dch (y div 100 div 10) # (dch (y div 100 mod 10) # digits2 (y mod 100))"
    by (simp add: digits4_def digits2_def)
  with a r show ?thesis
    unfolding dword_def by blast
qed

lemma days_in_month_le: "days_in_month y m \<le> 31"
  by (simp add: days_in_month_def)

lemma strptime_normal:
  assumes "1 \<le> m" "m \<le> 12" "1 \<le> y" "y \<le> 9999" "1 \<le> d" "d \<le> days_in_month y m"
    "1 \<le> h" "h \<le> 12" "mi \<le> 59" "se \<le> 59"
  shows "strptime
           (month_abbr m @ CHR '' '' # field_text pd d @ CHR '','' # CHR '' '' # digits4 y
              @ CHR '' '' # field_text ph h @ CHR '':'' # digits2 mi @ CHR '':'' # digits2 se
              @ CHR '' '' # (if p then ''PM'' else ''AM''))
         = Inr (y, m, d, h mod 12 + (if p then 12 else 0), mi, se, 0)"
proof -
  have d31: "d \<le> 31"
    using assms(6) days_in_month_le [of y m] by simp
  have hm: "h \<noteq> 12 \<Longrightarrow> h mod 12 = h"
    using assms(8) by simp
  note fr = format_regex_normal [OF assms(1,2,5) d31 assms(4,7,8,9,10), of pd ph p]
  show ?thesis
    unfolding strptime_def fr
    using assms(3,5,6,10) hm
    by (cases "h = 12"; cases p) simp_all
qed

lemma normalize_rendered:
  assumes spaces: "list_all is_space s0" "list_all is_space s1" "list_all is_space s2"
      "list_all is_space s3" "list_all is_space s4" "list_all is_space s5"
      "s1 \<noteq> []" "s2 \<noteq> []" "s3 \<noteq> []" "s4 \<noteq> []"
    and w1: "w1 \<noteq> []" "list_all (\<lambda>c. \<not> is_space c) w1"
    and w2: "dword w2" and w3: "dword w3" and w4: "dword w4"
    and k: "marker_ok k"
  shows "strip (s0 @ w1 @ s1 @ w2 @ s2 @ w3 @ s3 @ w4 @ s4 @ k @ s5) \<noteq> []
    \<and> normalize_ts (s0 @ w1 @ s1 @ w2 @ s2 @ w3 @ s3 @ w4 @ s4 @ k @ s5)
        = w1 @ CHR '' '' # w2 @ CHR '' '' # w3 @ CHR '' '' # w4
            @ CHR '' '' # (if k \<in> set pm_markers then ''PM'' else ''AM'')"
proof -
  let ?core = "w1 @ s1 @ w2 @ s2 @ w3 @ s3 @ w4 @ s4 @ k"
  have kw: "k \<noteq> []" "list_all (\<lambda>c. \<not> is_space c) k" "\<not> is_space (last k)"
    and ksub: "sub_ampm (CHR '' '' # k) = CHR '' '' # (if k \<in> set pm_markers then ''PM'' else ''AM'')"
    using k by (simp_all add: marker_ok_def)
  have hd: "\<not> is_space (hd ?core)"
    using w1 by (cases w1) auto
  have last: "\<not> is_space (last ?core)"
    using kw by simp
  have "?core \<noteq> []" using w1 by simp
  from strip_outer [OF spaces(1,6) this hd last]
  have strip: "strip (s0 @ w1 @ s1 @ w2 @ s2 @ w3 @ s3 @ w4 @ s4 @ k @ s5) = ?core"
    by simp
  have split: "split_ws ?core = [w1, w2, w3, w4, k]"
    using w1 dword_word [OF w2] dword_word [OF w3] dword_word [OF w4] kw spaces
    by (simp add: split_ws_word_space split_ws_last)
  have "sub_ampm (join_sp [w1, w2, w3, w4, k])
          = w1 @ sub_ampm (CHR '' '' # w2 @ CHR '' '' # w3 @ CHR '' '' # w4 @ CHR '' '' # k)"
    using w1 by (simp add: sub_ampm_word)
  also have "\<dots> = w1 @ CHR '' '' # w2 @ CHR '' '' # w3 @ CHR '' '' # w4 @ sub_ampm (CHR '' '' # k)"
    by (simp only: sub_ampm_dword [OF w2] sub_ampm_dword [OF w3] sub_ampm_dword [OF w4])
  finally have "sub_ampm (join_sp [w1, w2, w3, w4, k])
      = w1 @ CHR '' '' # w2 @ CHR '' '' # w3 @ CHR '' '' # w4
          @ CHR '' '' # (if k \<in> set pm_markers then ''PM'' else ''AM'')"
    by (simp only: ksub)
  then show ?thesis
    using \<open>?core \<noteq> []\<close> unfolding normalize_ts_def strip split by simp
qed


lemma length6:
  assumes "length (xs :: 'a list) = 6"
  obtains a b c d e f where "xs = [a, b, c, d, e, f]"
proof -
  from assms obtain a b c d e f where "xs = [a, b, c, d, e, f]"
    by (auto simp: length_Suc_conv eval_nat_numeral)
  then show ?thesis by (rule that)
qed

lemma safe_parse_valid:
  assumes "valid_ts_text t"
  shows "safe_parse_timestamp (to_text t) = Inr (Some (instant_of t))"
proof -
  from assms have len: "length (tt_spaces t) = 6"
    by (simp add: valid_ts_text_def)
  then obtain s0 s1 s2 s3 s4 s5 where sp: "tt_spaces t = [s0, s1, s2, s3, s4, s5]"
    by (rule length6)
  let ?m = "tt_month t" and ?d = "tt_day t" and ?y = "tt_year t" and ?h = "tt_hour t"
    and ?mi = "tt_minute t" and ?se = "tt_second t" and ?k = "tt_marker t"
  from assms sp have v: "1 \<le> ?m" "?m \<le> 12" "1 \<le> ?y" "?y \<le> 9999" "1 \<le> ?d"
      "?d \<le> days_in_month ?y ?m" "1 \<le> ?h" "?h \<le> 12" "?mi \<le> 59" "?se \<le> 59"
    and mk: "?k \<in> set am_markers \<or> ?k \<in> set pm_markers"
    and spaces: "list_all is_space s0" "list_all is_space s1" "list_all is_space s2"
      "list_all is_space s3" "list_all is_space s4" "list_all is_space s5"
      "s1 \<noteq> []" "s2 \<noteq> []" "s3 \<noteq> []" "s4 \<noteq> []"
    by (simp_all add: valid_ts_text_def)
  have d100: "?d < 100" "?h < 100" "?mi < 100" "?se < 100"
    using v(6,8,9,10) days_in_month_le [of ?y ?m] by simp_all
  let ?w1 = "month_abbr ?m"
  let ?w2 = "field_text (tt_day_pad t) ?d @ [CHR '','']"
  let ?w3 = "digits4 ?y"
  let ?w4 = "field_text (tt_hour_pad t) ?h @ (CHR '':'' # digits2 ?mi @ CHR '':'' # digits2 ?se)"
  have w1: "?w1 \<noteq> []" "list_all (\<lambda>c. \<not> is_space c) ?w1"
    using month_ok_range [OF v(1,2)] by (auto simp: month_ok_def)
  have w2: "dword ?w2"
    by (rule field_text_dword [OF d100(1)]) (simp add: punct_facts)
  have w3: "dword ?w3"
    by (rule digits4_dword [OF v(4)])
  have w4: "dword ?w4"
    using digits2_nospace [OF d100(3)] digits2_nospace [OF d100(4)]
    by (intro field_text_dword [OF d100(2)]) (simp add: punct_facts)
  have tx: "to_text t = s0 @ ?w1 @ s1 @ ?w2 @ s2 @ ?w3 @ s3 @ ?w4 @ s4 @ ?k @ s5"
    by (simp add: to_text_def sp)
  note n = normalize_rendered [OF spaces w1 w2 w3 w4 marker_ok_member [OF mk]]
  have ne: "strip (to_text t) \<noteq> []"
    using n unfolding tx by blast
  have "normalize_ts (to_text t) =
          ?w1 @ CHR '' '' # ?w2 @ CHR '' '' # ?w3 @ CHR '' '' # ?w4
            @ CHR '' '' # (if ?k \<in> set pm_markers then ''PM'' else ''AM'')"
    using n unfolding tx by blast
  also have "\<dots> = month_abbr ?m @ CHR '' '' # field_text (tt_day_pad t) ?d @ CHR '','' # CHR '' ''
        # digits4 ?y @ CHR '' '' # field_text (tt_hour_pad t) ?h @ CHR '':'' # digits2 ?mi
        @ CHR '':'' # digits2 ?se @ CHR '' '' # (if ?k \<in> set pm_markers then ''PM'' else ''AM'')"
    by simp
  finally have "strptime (normalize_ts (to_text t)) = Inr (instant_of t)"
    by (simp only: strptime_normal [OF v] instant_of_def)
  with ne show ?thesis
    by (simp add: safe_parse_timestamp_def)
qed

text \<open>
  Claim C6.  For two timestamp strings that are valid under the fixed format, with any
  spelling of the meridiem marker and any whitespace runs, normalisation returns a present
  value for each, namely the instant the string denotes; hence when the instant of the
  first precedes the instant of the second, the normalised values are ordered the same way.
\<close>

theorem normalization_order_preserving:
  assumes "valid_ts_text A" and "valid_ts_text B"
  shows "safe_parse_timestamp (to_text A) = Inr (Some (instant_of A))
    \<and> safe_parse_timestamp (to_text B) = Inr (Some (instant_of B))
    \<and> (instant_of A < instant_of B \<longrightarrow>
         (\<exists>a b. safe_parse_timestamp (to_text A) = Inr (Some a)
              \<and> safe_parse_timestamp (to_text B) = Inr (Some b) \<and> a < b))"
  using safe_parse_valid [OF assms(1)] safe_parse_valid [OF assms(2)] by simp

lemma ex_ts_valid: "valid_ts_text ex_ts_a" "valid_ts_text ex_ts_b"
  by code_simp+

lemma ex_ts_instants:
  "instant_of ex_ts_a = (2026, 1, 11, 12, 2, 58, 0)"
  "instant_of ex_ts_b = (2026, 1, 11, 21, 2, 58, 0)"
  by code_simp+

lemma ex_ts_less: "instant_of ex_ts_a < instant_of ex_ts_b"
  by code_simp

theorem normalization_order_preserving_witness:
  "valid_ts_text ex_ts_a \<and> valid_ts_text ex_ts_b
   \<and> instant_of ex_ts_a < instant_of ex_ts_b
   \<and> safe_parse_timestamp (to_text ex_ts_a) = Inr (Some (2026, 1, 11, 12, 2, 58, 0))
   \<and> safe_parse_timestamp (to_text ex_ts_b) = Inr (Some (2026, 1, 11, 21, 2, 58, 0))"
  using normalization_order_preserving [OF ex_ts_valid] ex_ts_valid ex_ts_less
  by (simp only: ex_ts_instants simp_thms)

text \<open>
  Claim C5.  Normalisation never raises.  It returns the absent value for an input that
  is empty after trimming, and for an input whose normalised form (whitespace collapsed,
  trailing marker in upper case) \<^verbatim>\<open>strptime\<close> rejects, be it that the format does not match
  or that a matched field is out of range; and only for these.
\<close>

theorem normalization_absent:
  "(strip raw = [] \<longrightarrow> safe_parse_timestamp raw = Inr None)
   \<and> (format_regex (normalize_ts raw) = [] \<longrightarrow> safe_parse_timestamp raw = Inr None)
   \<and> (\<forall>e. strptime (normalize_ts raw) = Inl e \<longrightarrow> safe_parse_timestamp raw = Inr None)
   \<and> (\<exists>r. safe_parse_timestamp raw = Inr r)
   \<and> (safe_parse_timestamp raw = Inr None \<longleftrightarrow>
        strip raw = [] \<or> (\<exists>e. strptime (normalize_ts raw) = Inl e))"
proof -
  have 1: "strip raw = [] \<longrightarrow> safe_parse_timestamp raw = Inr None"
    by (simp add: safe_parse_timestamp_def)
  have 3: "\<forall>e. strptime (normalize_ts raw) = Inl e \<longrightarrow> safe_parse_timestamp raw = Inr None"
    by (auto simp: safe_parse_timestamp_def)
  have "format_regex (normalize_ts raw) = [] \<longrightarrow> strptime (normalize_ts raw) = Inl ValueError"
    by (simp add: strptime_def)
  with 3 have 2: "format_regex (normalize_ts raw) = [] \<longrightarrow> safe_parse_timestamp raw = Inr None"
    by blast
  have 4: "\<exists>r. safe_parse_timestamp raw = Inr r"
    by (cases "strptime (normalize_ts raw)") (simp_all add: safe_parse_timestamp_def)
  have 5: "safe_parse_timestamp raw = Inr None \<longleftrightarrow>
        strip raw = [] \<or> (\<exists>e. strptime (normalize_ts raw) = Inl e)"
    by (cases "strptime (normalize_ts raw)") (simp_all add: safe_parse_timestamp_def)
  from 1 2 3 4 5 show ?thesis
    by (intro conjI)
qed

lemma ex_raw_facts:
  "strip [] = []"
  "format_regex (normalize_ts ex_raw_no_blank) = []"
  "strptime (normalize_ts ex_raw_no_date) = Inl ValueError"
  by code_simp+

theorem normalization_absent_witness:
  "strip [] = [] \<and> safe_parse_timestamp [] = Inr None
   \<and> format_regex (normalize_ts ex_raw_no_blank) = []
   \<and> safe_parse_timestamp ex_raw_no_blank = Inr None
   \<and> strptime (normalize_ts ex_raw_no_date) = Inl ValueError
   \<and> safe_parse_timestamp ex_raw_no_date = Inr None"
proof -
  from normalization_absent [of "[]"] ex_raw_facts(1)
  have 1: "safe_parse_timestamp [] = Inr None" by blast
  from normalization_absent [of ex_raw_no_blank] ex_raw_facts(2)
  have 2: "safe_parse_timestamp ex_raw_no_blank = Inr None" by blast
  from normalization_absent [of ex_raw_no_date] ex_raw_facts(3)
  have 3: "safe_parse_timestamp ex_raw_no_date = Inr None" by blast
  from 1 2 3 ex_raw_facts show ?thesis
    by (intro conjI)
qed

subsection \<open>Role inference\<close>

lemma infer_role_iff:
  "infer_role s c = ''customer'' \<longleftrightarrow> s \<noteq> [] \<and> c \<noteq> [] \<and> lower (strip s) = lower (strip c)"
  by (simp add: infer_role_def)

lemma strip_fixed:
  assumes "s = [] \<or> (\<not> is_space (hd s) \<and> \<not> is_space (last s))"
  shows "strip s = s"
proof (cases "s = []")
  case True
  then show ?thesis by (simp add: strip_def)
next
  case False
  with assms have "\<not> is_space (hd s)" "\<not> is_space (last s)" by blast+
  from strip_outer [of "[]" "[]" s, OF _ _ False this] show ?thesis
    by simp
qed

lemma concat_trimmed:
  assumes "\<forall>x\<in>set xs. x \<noteq> [] \<and> \<not> is_space (hd x) \<and> \<not> is_space (last x)"
  shows "concat xs = [] \<or> (\<not> is_space (hd (concat xs)) \<and> \<not> is_space (last (concat xs)))"
proof (cases xs rule: rev_cases)
  case Nil
  then show ?thesis by simp
next
  case (snoc ys y)
  then have y: "y \<noteq> []" "\<not> is_space (last y)"
    using assms by simp_all
  have l: "\<not> is_space (last (concat xs))"
    using y snoc by simp
  have "xs \<noteq> []"
    using snoc by simp
  then obtain z zs where z: "xs = z # zs"
    by (meson neq_Nil_conv)
  then have "z \<noteq> []" "\<not> is_space (hd z)"
    using assms by simp_all
  then have "\<not> is_space (hd (concat xs))"
    using z by simp
  with l show ?thesis by blast
qed

lemma strip_get_text_strip: "strip (get_text_strip nodes) = get_text_strip nodes"
proof -
  have "\<forall>x\<in>set (filter (\<lambda>s. s \<noteq> []) (map strip nodes)).
          x \<noteq> [] \<and> \<not> is_space (hd x) \<and> \<not> is_space (last x)"
    using strip_trimmed by auto
  from concat_trimmed [OF this] show ?thesis
    unfolding get_text_strip_def by (rule strip_fixed)
qed

lemma make_row_role:
  "row_role (make_row cid customer im) = infer_role (sender_name (snd im)) customer"
  by (simp add: make_row_def Let_def)

text \<open>
  Claim C7.  The sender label of a message and the customer name of its thread are
  headings read with \<^verbatim>\<open>get_text(strip=True)\<close>, or empty: they carry no surrounding
  whitespace, so trimming them again changes nothing.  For such labels the role is
  \<open>customer\<close> exactly when both are non-empty and equal under case-insensitive comparison,
  and \<open>assistant\<close> in every other case; the role column of a row is this value.
\<close>

theorem infer_role_case_insensitive:
  assumes "strip sender = sender" and "strip customer = customer"
  shows "(infer_role sender customer = ''customer'' \<longleftrightarrow>
            sender \<noteq> [] \<and> customer \<noteq> [] \<and> lower sender = lower customer)
    \<and> (infer_role sender customer \<noteq> ''customer'' \<longrightarrow> infer_role sender customer = ''assistant'')
    \<and> strip (get_text_strip nodes) = get_text_strip nodes
    \<and> strip [] = []
    \<and> row_role (make_row cid customer (i, m)) = infer_role (sender_name m) customer"
proof -
  have 1: "infer_role sender customer = ''customer'' \<longleftrightarrow>
            sender \<noteq> [] \<and> customer \<noteq> [] \<and> lower sender = lower customer"
    using assms by (simp add: infer_role_def)
  have 2: "infer_role sender customer \<noteq> ''customer'' \<longrightarrow> infer_role sender customer = ''assistant''"
    by (simp add: infer_role_def)
  have 3: "strip (get_text_strip nodes) = get_text_strip nodes"
    by (rule strip_get_text_strip)
  have 4: "strip [] = []"
    by (simp add: strip_def)
  have 5: "row_role (make_row cid customer (i, m)) = infer_role (sender_name m) customer"
    by (simp add: make_row_role)
  from 1 2 3 4 5 show ?thesis
    by (intro conjI)
qed

lemma ex_strip_names:
  "strip ''jane doe'' = ''jane doe''" "strip ''Jane Doe'' = ''Jane Doe''"
  "strip ''Support Team'' = ''Support Team''"
  by code_simp+

lemma ex_lower_names:
  "lower ''jane doe'' = ''jane doe''" "lower ''Jane Doe'' = ''jane doe''"
  "lower ''Support Team'' = ''support team''"
  by code_simp+

lemma ex_get_text:
  "get_text_strip [[CHR 0x0A, CHR 0x20], ''jane '', '' doe'', [CHR 0x0A]] = ''janedoe''"
  by code_simp

theorem infer_role_case_insensitive_witness:
  "strip ''jane doe'' = ''jane doe'' \<and> strip ''Jane Doe'' = ''Jane Doe''
   \<and> strip ''Support Team'' = ''Support Team''
   \<and> lower ''jane doe'' = lower ''Jane Doe''
   \<and> infer_role ''jane doe'' ''Jane Doe'' = ''customer''
   \<and> infer_role ''Support Team'' ''Jane Doe'' \<noteq> ''customer''
   \<and> infer_role ''Support Team'' ''Jane Doe'' = ''assistant''"
proof -
  note a = infer_role_case_insensitive [OF ex_strip_names(1) ex_strip_names(2), of "[]" "0::nat" 0 ex_m1]
  note b = infer_role_case_insensitive [OF ex_strip_names(3) ex_strip_names(2), of "[]" "0::nat" 0 ex_m1]
  have l: "lower ''jane doe'' = lower ''Jane Doe''"
    by (simp only: ex_lower_names)
  have n: "lower ''Support Team'' \<noteq> lower ''Jane Doe''"
    by (simp add: ex_lower_names)
  from a l have 1: "infer_role ''jane doe'' ''Jane Doe'' = ''customer''"
    by blast
  from b n have 2: "infer_role ''Support Team'' ''Jane Doe'' \<noteq> ''customer''"
    by blast
  with b have 3: "infer_role ''Support Team'' ''Jane Doe'' = ''assistant''"
    by blast
  from 1 2 3 l ex_strip_names show ?thesis
    by (intro conjI)
qed

end
